theory Spec2Isabelle
  imports Main
begin

section \<open>Data model\<close>

text \<open>
  The program is the Python class \<open>HillClimbingWiFiOptimizer\<close> of \<open>Hill_Climbing.py\<close>.
  Python integers are unbounded, so coordinates, scores and counters are \<open>int\<close>.
  A position is a pair, a placement of Wi-Fi access points a list of positions.
  Exceptions are values of \<open>error\<close>; a function that can raise returns \<open>error + 'a\<close>.
\<close>

datatype error = ValueError | ZeroDivisionError | TypeError

type_synonym pos = "int \<times> int"
type_synonym placement = "pos list"

text \<open>The fields of the object that the search reads (set by \<open>__init__\<close>).\<close>

record optimizer =
  grid_size :: int
  num_computers :: int
  num_wifi :: int
  computers :: "pos list"

text \<open>
  The local variables of the loop of \<open>hill_climbing\<close>. After line 61 the variable
  \<open>current_wifi\<close> holds the first component of the pair chosen by \<open>max\<close>, which is \<open>None\<close>
  in the default pair, hence the option type.
\<close>

record run_state =
  current_wifi :: "placement option"
  current_score :: int
  iterations :: int
  improvements :: int

text \<open>
  The dictionary returned by \<open>hill_climbing\<close>, keys \<open>wifi_positions\<close>, \<open>score\<close>,
  \<open>iterations\<close>, \<open>improvements\<close> (the last two prefixed here, their names being taken by
  the loop variables).
\<close>

record run_result =
  wifi_positions :: "placement option"
  score :: int
  res_iterations :: int
  res_improvements :: int

section \<open>Objective function\<close>

definition manhattan_distance :: "pos \<Rightarrow> pos \<Rightarrow> int" where
  "manhattan_distance pos1 pos2 = \<bar>fst pos1 - fst pos2\<bar> + \<bar>snd pos1 - snd pos2\<bar>"

text \<open>Python's \<open>min\<close> over an iterable without default: \<open>ValueError\<close> when it is empty.\<close>

fun py_min :: "int list \<Rightarrow> error + int" where
  "py_min [] = Inl ValueError"
| "py_min (x # xs) = Inr (fold min xs x)"

text \<open>
  \<open>sum(min(... for wifi in wifi_positions) for computer in self.computers)\<close>: the inner
  \<open>min\<close> is evaluated once per computer, in order, and its exception ends the sum.
\<close>

fun total_distance :: "pos list \<Rightarrow> placement \<Rightarrow> error + int" where
  "total_distance [] wifi = Inr 0"
| "total_distance (computer # cs) wifi =
     (case py_min (map (manhattan_distance computer) wifi) of
        Inl e \<Rightarrow> Inl e
      | Inr d \<Rightarrow> (case total_distance cs wifi of
                    Inl e \<Rightarrow> Inl e
                  | Inr s \<Rightarrow> Inr (d + s)))"

definition calculate_objective :: "optimizer \<Rightarrow> placement \<Rightarrow> error + int" where
  "calculate_objective opt wifi =
     (case total_distance (computers opt) wifi of
        Inl e \<Rightarrow> Inl e
      | Inr t \<Rightarrow> Inr (- t))"

section \<open>Neighbor generation\<close>

definition directions :: "(int \<times> int) list" where
  "directions = [(-1, 0), (1, 0), (0, -1), (0, 1)]"

text \<open>
  The body of the inner loop of \<open>get_neighbors\<close> for access point \<open>i\<close> and one direction:
  the list of neighbors it appends (none or one). \<open>len(set(xs)) == len(xs)\<close> is
  \<open>card (set xs) = length xs\<close>.
\<close>

definition move :: "int \<Rightarrow> placement \<Rightarrow> nat \<Rightarrow> int \<times> int \<Rightarrow> placement list" where
  "move gs wifi i d =
     (let new_x = fst (wifi ! i) + fst d;
          new_y = snd (wifi ! i) + snd d
      in if 0 \<le> new_x \<and> new_x < gs \<and> 0 \<le> new_y \<and> new_y < gs
         then (let new_wifi_positions = wifi[i := (new_x, new_y)]
               in if card (set new_wifi_positions) = length new_wifi_positions
                  then [new_wifi_positions] else [])
         else [])"

text \<open>The index \<open>i\<close> ranges over \<open>enumerate(wifi_positions)\<close>, so \<open>wifi ! i\<close> is in range.\<close>

definition get_neighbors :: "optimizer \<Rightarrow> placement \<Rightarrow> placement list" where
  "get_neighbors opt wifi =
     concat (map (\<lambda>i. concat (map (move (grid_size opt) wifi i) directions))
                 [0 ..< length wifi])"

section \<open>Hill climbing\<close>

text \<open>
  The generator \<open>((n, self.calculate_objective(n)) for n in neighbors)\<close>, consumed whole
  by \<open>max\<close>; an exception of the objective ends it.
\<close>

fun score_neighbors :: "optimizer \<Rightarrow> placement list \<Rightarrow> error + (placement option \<times> int) list" where
  "score_neighbors opt [] = Inr []"
| "score_neighbors opt (n # ns) =
     (case calculate_objective opt n of
        Inl e \<Rightarrow> Inl e
      | Inr s \<Rightarrow> (case score_neighbors opt ns of
                    Inl e \<Rightarrow> Inl e
                  | Inr rest \<Rightarrow> Inr ((Some n, s) # rest)))"

text \<open>
  Python's \<open>max(iterable, key=lambda x: x[1], default=d)\<close>: the default on an empty
  iterable, otherwise the first item whose key is maximal (the running maximum is
  replaced only by an item with a strictly greater key).
\<close>

fun max_from :: "'a \<times> int \<Rightarrow> ('a \<times> int) list \<Rightarrow> 'a \<times> int" where
  "max_from best [] = best"
| "max_from best (x # xs) = (if snd x > snd best then max_from x xs else max_from best xs)"

fun py_max :: "('a \<times> int) list \<Rightarrow> 'a \<times> int \<Rightarrow> 'a \<times> int" where
  "py_max [] d = d"
| "py_max (x # xs) d = max_from x xs"

text \<open>
  One pass through the body of the \<open>while\<close> loop (lines 53 to 64): \<open>Inr None\<close> is the
  \<open>break\<close>, \<open>Inr (Some st')\<close> the state after the assignments. Iterating over \<open>None\<close> in
  \<open>get_neighbors\<close> raises \<open>TypeError\<close>.
\<close>

definition hc_body :: "optimizer \<Rightarrow> run_state \<Rightarrow> error + run_state option" where
  "hc_body opt st =
     (case current_wifi st of
        None \<Rightarrow> Inl TypeError
      | Some wifi \<Rightarrow>
          (case score_neighbors opt (get_neighbors opt wifi) of
             Inl e \<Rightarrow> Inl e
           | Inr scored \<Rightarrow>
               (let (best_neighbor, best_score) = py_max scored (None, current_score st)
                in if best_score \<le> current_score st then Inr None
                   else Inr (Some \<lparr>current_wifi = best_neighbor,
                                   current_score = best_score,
                                   iterations = iterations st + 1,
                                   improvements = improvements st + 1\<rparr>))))"

function hc_loop :: "optimizer \<Rightarrow> int \<Rightarrow> run_state \<Rightarrow> error + run_state" where
  "hc_loop opt max_iterations st =
     (if iterations st < max_iterations
      then (case hc_body opt st of
              Inl e \<Rightarrow> Inl e
            | Inr None \<Rightarrow> Inr st
            | Inr (Some st') \<Rightarrow> hc_loop opt max_iterations st')
      else Inr st)"
  by pat_completeness auto
termination
  by (relation "measure (\<lambda>(opt, max_iterations, st). nat (max_iterations - iterations st))")
     (auto simp: hc_body_def split: option.splits sum.splits prod.splits if_splits)

definition hill_climbing :: "optimizer \<Rightarrow> placement \<Rightarrow> int \<Rightarrow> error + run_result" where
  "hill_climbing opt initial_wifi max_iterations =
     (case calculate_objective opt initial_wifi of
        Inl e \<Rightarrow> Inl e
      | Inr s \<Rightarrow>
          (case hc_loop opt max_iterations
                  \<lparr>current_wifi = Some initial_wifi, current_score = s,
                   iterations = 0, improvements = 0\<rparr> of
             Inl e \<Rightarrow> Inl e
           | Inr st \<Rightarrow> Inr \<lparr>wifi_positions = current_wifi st,
                            score = current_score st,
                            res_iterations = iterations st,
                            res_improvements = improvements st\<rparr>))"

section \<open>Random generation\<close>

text \<open>
  The process-wide generator of Python's \<open>random\<close> module is an external collaborator.
  It is modelled as the stream of the raw values it is going to deliver; a draw consumes
  the head. \<open>random.randint(a, b)\<close> returns some integer of \<open>[a, b]\<close> and raises
  \<open>ValueError\<close> when that range is empty; every sequence of results of the real
  generator is the image of some stream.
\<close>

type_synonym rng = "nat \<Rightarrow> nat"

definition randint :: "int \<Rightarrow> int \<Rightarrow> rng \<Rightarrow> error + (int \<times> rng)" where
  "randint a b rng =
     (if b < a then Inl ValueError
      else Inr (a + int (rng 0 mod nat (b - a + 1)), \<lambda>k. rng (Suc k)))"

text \<open>The tuple \<open>(random.randint(0, g - 1), random.randint(0, g - 1))\<close>, left to right.\<close>

definition random_pos :: "int \<Rightarrow> rng \<Rightarrow> error + (pos \<times> rng)" where
  "random_pos gs rng =
     (case randint 0 (gs - 1) rng of
        Inl e \<Rightarrow> Inl e
      | Inr (x, rng1) \<Rightarrow>
          (case randint 0 (gs - 1) rng1 of
             Inl e \<Rightarrow> Inl e
           | Inr (y, rng2) \<Rightarrow> Inr ((x, y), rng2)))"

text \<open>The draws of a comprehension \<open>... for _ in range(n)\<close>, in order.\<close>

fun random_positions :: "int \<Rightarrow> nat \<Rightarrow> rng \<Rightarrow> error + (pos list \<times> rng)" where
  "random_positions gs 0 rng = Inr ([], rng)"
| "random_positions gs (Suc k) rng =
     (case random_pos gs rng of
        Inl e \<Rightarrow> Inl e
      | Inr (p, rng1) \<Rightarrow>
          (case random_positions gs k rng1 of
             Inl e \<Rightarrow> Inl e
           | Inr (ps, rng2) \<Rightarrow> Inr (p # ps, rng2)))"

text \<open>
  \<open>list({...})\<close>: the drawn positions without repetition. CPython lists a set in the
  order of its hash table, which is not modelled: the order chosen here is that of the
  last occurrences, and the theorems below use nothing of it but the elements and their
  distinctness.
\<close>

definition list_of_set :: "pos list \<Rightarrow> pos list" where
  "list_of_set drawn = remdups drawn"

definition generate_random_positions :: "int \<Rightarrow> int \<Rightarrow> rng \<Rightarrow> error + (pos list \<times> rng)" where
  "generate_random_positions gs n rng =
     (case random_positions gs (nat n) rng of
        Inl e \<Rightarrow> Inl e
      | Inr (drawn, rng') \<Rightarrow> Inr (list_of_set drawn, rng'))"

text \<open>\<open>generate_random_computers\<close> assigns \<open>self.computers\<close>.\<close>

definition generate_random_computers :: "optimizer \<Rightarrow> rng \<Rightarrow> error + (optimizer \<times> rng)" where
  "generate_random_computers opt rng =
     (case generate_random_positions (grid_size opt) (num_computers opt) rng of
        Inl e \<Rightarrow> Inl e
      | Inr (cs, rng') \<Rightarrow> Inr (opt\<lparr>computers := cs\<rparr>, rng'))"

definition generate_random_wifi :: "optimizer \<Rightarrow> rng \<Rightarrow> error + (placement \<times> rng)" where
  "generate_random_wifi opt rng =
     generate_random_positions (grid_size opt) (num_wifi opt) rng"

text \<open>The constructor \<open>__init__\<close>.\<close>

definition init :: "int \<Rightarrow> int \<Rightarrow> int \<Rightarrow> rng \<Rightarrow> error + (optimizer \<times> rng)" where
  "init gs nc nw rng =
     generate_random_computers
       \<lparr>grid_size = gs, num_computers = nc, num_wifi = nw, computers = []\<rparr> rng"

section \<open>Random restarts\<close>

text \<open>\<open>best_score\<close> starts as \<open>float('-inf')\<close> and is an integer score afterwards.\<close>

datatype best = MinusInf | Score int

fun exceeds :: "int \<Rightarrow> best \<Rightarrow> bool" where
  "exceeds s MinusInf = True"
| "exceeds s (Score b) = (s > b)"

text \<open>The local variables of \<open>hill_climbing_with_random_restart\<close>, and the generator.\<close>

record restart_state =
  best_solution :: "placement option"
  best_score :: best
  best_restart_num :: int
  all_results :: "run_result list"
  total_improvements :: int
  generator :: rng

text \<open>One pass through the body of \<open>for restart in range(num_restarts)\<close> (printing left out).\<close>

definition restart_body :: "optimizer \<Rightarrow> int \<Rightarrow> restart_state \<Rightarrow> int \<Rightarrow> error + restart_state" where
  "restart_body opt max_iterations st restart =
     (case generate_random_wifi opt (generator st) of
        Inl e \<Rightarrow> Inl e
      | Inr (initial_wifi, rng') \<Rightarrow>
          (case hill_climbing opt initial_wifi max_iterations of
             Inl e \<Rightarrow> Inl e
           | Inr result \<Rightarrow>
               (let st1 = st\<lparr>all_results := all_results st @ [result],
                              total_improvements := total_improvements st + res_improvements result,
                              generator := rng'\<rparr>
                in if exceeds (score result) (best_score st1)
                   then Inr (st1\<lparr>best_score := Score (score result),
                                  best_solution := wifi_positions result,
                                  best_restart_num := restart + 1\<rparr>)
                   else Inr st1)))"

fun restart_loop :: "optimizer \<Rightarrow> int \<Rightarrow> restart_state \<Rightarrow> int list \<Rightarrow> error + restart_state" where
  "restart_loop opt max_iterations st [] = Inr st"
| "restart_loop opt max_iterations st (restart # rest) =
     (case restart_body opt max_iterations st restart of
        Inl e \<Rightarrow> Inl e
      | Inr st' \<Rightarrow> restart_loop opt max_iterations st' rest)"

text \<open>Python's \<open>range(n)\<close>: empty for \<open>n \<le> 0\<close>.\<close>

definition py_range :: "int \<Rightarrow> int list" where
  "py_range n = map int [0 ..< nat n]"

text \<open>
  The result dictionaries. The floating-point entries (\<open>total_time\<close>, \<open>average_score\<close>,
  \<open>std_score\<close>, \<open>improvement_rate\<close>) are left out; of \<open>improvement_rate\<close> the division by
  zero is kept.
\<close>

record statistics =
  stat_best_score :: best
  worst_score :: int
  unique_solutions :: nat
  stat_total_improvements :: int

record restart_result =
  best_wifi_positions :: "placement option"
  res_best_score :: best
  res_best_restart_num :: int
  total_restarts :: int
  res_all_results :: "run_result list"
  stats :: statistics

text \<open>
  \<open>calculate_average_distance\<close>, called by \<open>print_analysis\<close>: only whether it raises is
  modelled (its value is a float that is printed). The sum is evaluated before the
  division by \<open>len(self.computers)\<close>; iterating over \<open>None\<close> raises \<open>TypeError\<close>.
\<close>

definition calculate_average_distance :: "optimizer \<Rightarrow> placement option \<Rightarrow> error + unit" where
  "calculate_average_distance opt wifi =
     (case (case wifi of
              None \<Rightarrow> (if computers opt = [] then Inr 0 else Inl TypeError)
            | Some w \<Rightarrow> total_distance (computers opt) w) of
        Inl e \<Rightarrow> Inl e
      | Inr t \<Rightarrow> (if length (computers opt) = 0 then Inl ZeroDivisionError else Inr ()))"

text \<open>\<open>print_analysis\<close>: the exceptions of the expressions it prints.\<close>

definition print_analysis :: "optimizer \<Rightarrow> restart_result \<Rightarrow> error + unit" where
  "print_analysis opt results =
     (if total_restarts results = 0 then Inl ZeroDivisionError
      else calculate_average_distance opt (best_wifi_positions results))"

definition hill_climbing_with_random_restart ::
    "optimizer \<Rightarrow> int \<Rightarrow> int \<Rightarrow> bool \<Rightarrow> rng \<Rightarrow> error + (restart_result \<times> rng)" where
  "hill_climbing_with_random_restart opt num_restarts max_iterations verbose rng =
     (case restart_loop opt max_iterations
             \<lparr>best_solution = None, best_score = MinusInf, best_restart_num = 0,
              all_results = [], total_improvements = 0, generator = rng\<rparr>
             (py_range num_restarts) of
        Inl e \<Rightarrow> Inl e
      | Inr st \<Rightarrow>
          (let scores = map score (all_results st)
           in case py_min scores of
                Inl e \<Rightarrow> Inl e
              | Inr worst \<Rightarrow>
                  if num_restarts = 0 then Inl ZeroDivisionError
                  else (let results =
                          \<lparr>best_wifi_positions = best_solution st,
                           res_best_score = best_score st,
                           res_best_restart_num = best_restart_num st,
                           total_restarts = num_restarts,
                           res_all_results = all_results st,
                           stats = \<lparr>stat_best_score = best_score st,
                                    worst_score = worst,
                                    unique_solutions = card (set scores),
                                    stat_total_improvements = total_improvements st\<rparr>\<rparr>
                        in if verbose
                           then (case print_analysis opt results of
                                   Inl e \<Rightarrow> Inl e
                                 | Inr u \<Rightarrow> Inr (results, generator st))
                           else Inr (results, generator st))))"

section \<open>Vocabulary of the properties\<close>

text \<open>
  The history of the loop of \<open>hill_climbing\<close>: the states at the successive evaluations of
  its guard, the starting state first. It follows the recursion of \<open>hc_loop\<close> and records
  what \<open>hc_loop\<close> forgets; \<open>hc_trace_last\<close> below relates the two.
\<close>

function hc_trace :: "optimizer \<Rightarrow> int \<Rightarrow> run_state \<Rightarrow> run_state list" where
  "hc_trace opt max_iterations st =
     st # (if iterations st < max_iterations
           then (case hc_body opt st of
                   Inr (Some st') \<Rightarrow> hc_trace opt max_iterations st'
                 | _ \<Rightarrow> [])
           else [])"
  by pat_completeness auto
termination
  by (relation "measure (\<lambda>(opt, max_iterations, st). nat (max_iterations - iterations st))")
     (auto simp: hc_body_def split: option.splits sum.splits prod.splits if_splits)

text \<open>
  The equations of the two loops unfold without end under the simplifier; they are applied
  by hand.
\<close>

declare hc_loop.simps [simp del] hc_trace.simps [simp del]

text \<open>The score held by the loop is the objective of the placement it holds.\<close>

definition consistent :: "optimizer \<Rightarrow> run_state \<Rightarrow> bool" where
  "consistent opt st \<longleftrightarrow>
     (\<exists>wifi. current_wifi st = Some wifi \<and> calculate_objective opt wifi = Inr (current_score st))"

text \<open>Every position of a placement lies on the grid.\<close>

definition in_bounds :: "int \<Rightarrow> placement \<Rightarrow> bool" where
  "in_bounds gs wifi \<longleftrightarrow> (\<forall>p \<in> set wifi. 0 \<le> fst p \<and> fst p < gs \<and> 0 \<le> snd p \<and> snd p < gs)"

text \<open>The instance and the loop states of the scenario worked in the specification.\<close>

abbreviation scenario :: optimizer where
  "scenario \<equiv> \<lparr>grid_size = 3, num_computers = 2, num_wifi = 1, computers = [(0,0),(0,2)]\<rparr>"

abbreviation scenario_state :: "int \<times> int \<Rightarrow> int \<Rightarrow> int \<Rightarrow> run_state" where
  "scenario_state p s k \<equiv>
     \<lparr>current_wifi = Some [p], current_score = s, iterations = k, improvements = k\<rparr>"

text \<open>An instance with two equally good first moves, and one with two access points.\<close>

abbreviation tie :: optimizer where
  "tie \<equiv> \<lparr>grid_size = 3, num_computers = 1, num_wifi = 1, computers = [(1,1)]\<rparr>"

abbreviation pair_instance :: optimizer where
  "pair_instance \<equiv> \<lparr>grid_size = 3, num_computers = 2, num_wifi = 2, computers = [(0,0),(0,2)]\<rparr>"

text \<open>
  The state of the restart loop names the best run so far: nothing before the first run;
  afterwards the first run of greatest score, by its score, its placement and its number
  counted from 1.
\<close>

definition tracks_best :: "restart_state \<Rightarrow> bool" where
  "tracks_best st \<longleftrightarrow>
     (all_results st = [] \<and> best_score st = MinusInf \<and> best_restart_num st = 0 \<and>
      best_solution st = None) \<or>
     (\<exists>i < length (all_results st).
        best_score st = Score (score (all_results st ! i)) \<and>
        best_restart_num st = int i + 1 \<and>
        best_solution st = wifi_positions (all_results st ! i) \<and>
        (\<forall>j < length (all_results st). score (all_results st ! j) \<le> score (all_results st ! i)) \<and>
        (\<forall>j < i. score (all_results st ! j) < score (all_results st ! i)))"

text \<open>Every recorded result is a run of \<open>hill_climbing\<close> from a generated placement.\<close>

definition generated_runs :: "optimizer \<Rightarrow> int \<Rightarrow> run_result list \<Rightarrow> bool" where
  "generated_runs opt max_iterations rs \<longleftrightarrow>
     (\<forall>r \<in> set rs. \<exists>g g' w. generate_random_wifi opt g = Inr (w, g') \<and>
                        hill_climbing opt w max_iterations = Inr r)"

text \<open>The state in which \<open>hill_climbing_with_random_restart\<close> enters its loop.\<close>

abbreviation start :: "rng \<Rightarrow> restart_state" where
  "start rng \<equiv> \<lparr>best_solution = None, best_score = MinusInf, best_restart_num = 0,
               all_results = [], total_improvements = 0, generator = rng\<rparr>"

text \<open>
  Six restarts of the scenario with a step cap of 0 (each run returns its start), and an
  instance whose configuration is not valid.
\<close>

abbreviation six_starts :: restart_result where
  "six_starts \<equiv>
     \<lparr>best_wifi_positions = Some [(0, 1)], res_best_score = Score (- 2),
      res_best_restart_num = 3, total_restarts = 6,
      res_all_results =
        [\<lparr>wifi_positions = Some [(2, 0)], score = - 6, res_iterations = 0, res_improvements = 0\<rparr>,
         \<lparr>wifi_positions = Some [(1, 2)], score = - 4, res_iterations = 0, res_improvements = 0\<rparr>,
         \<lparr>wifi_positions = Some [(0, 1)], score = - 2, res_iterations = 0, res_improvements = 0\<rparr>,
         \<lparr>wifi_positions = Some [(2, 0)], score = - 6, res_iterations = 0, res_improvements = 0\<rparr>,
         \<lparr>wifi_positions = Some [(1, 2)], score = - 4, res_iterations = 0, res_improvements = 0\<rparr>,
         \<lparr>wifi_positions = Some [(0, 1)], score = - 2, res_iterations = 0, res_improvements = 0\<rparr>],
      stats = \<lparr>stat_best_score = Score (- 2), worst_score = - 6,
                unique_solutions = 3, stat_total_improvements = 0\<rparr>\<rparr>"

abbreviation lax :: optimizer where
  "lax \<equiv> \<lparr>grid_size = 0, num_computers = - 1, num_wifi = - 1, computers = []\<rparr>"

section \<open>Auxiliary facts\<close>

subsection \<open>The objective raises only without access points\<close>

lemma py_min_nonempty: "xs \<noteq> [] \<Longrightarrow> \<exists>m. py_min xs = Inr m"
  by (cases xs) simp_all

lemma total_distance_nonempty: "wifi \<noteq> [] \<Longrightarrow> \<exists>t. total_distance cs wifi = Inr t"
proof (induction cs)
  case Nil
  show ?case by simp
next
  case (Cons c cs)
  from Cons.prems obtain m where "py_min (map (manhattan_distance c) wifi) = Inr m"
    using py_min_nonempty[of "map (manhattan_distance c) wifi"] by auto
  moreover from Cons obtain t where "total_distance cs wifi = Inr t" by auto
  ultimately show ?case by simp
qed


lemma calculate_objective_returns:
  "wifi \<noteq> [] \<or> computers opt = [] \<Longrightarrow> \<exists>s. calculate_objective opt wifi = Inr s"
  using total_distance_nonempty[of wifi "computers opt"]
  by (auto simp: calculate_objective_def)


subsection \<open>Members of the neighbor list\<close>

lemma len_set_distinct: "card (set xs) = length xs \<longleftrightarrow> distinct xs"
  using card_distinct distinct_card by blast

lemma move_member:
  "n \<in> set (move gs wifi i d) \<longleftrightarrow>
     n = wifi[i := (fst (wifi ! i) + fst d, snd (wifi ! i) + snd d)] \<and> distinct n \<and>
     0 \<le> fst (wifi ! i) + fst d \<and> fst (wifi ! i) + fst d < gs \<and>
     0 \<le> snd (wifi ! i) + snd d \<and> snd (wifi ! i) + snd d < gs"
  by (auto simp: move_def Let_def len_set_distinct)

lemma get_neighbors_member:
  "n \<in> set (get_neighbors opt wifi) \<longleftrightarrow>
     (\<exists>i < length wifi. \<exists>d \<in> set directions. n \<in> set (move (grid_size opt) wifi i d))"
  by (auto simp: get_neighbors_def)

lemma get_neighbors_length:
  "n \<in> set (get_neighbors opt wifi) \<Longrightarrow> length n = length wifi \<and> wifi \<noteq> []"
  by (auto simp: get_neighbors_member move_member)

lemma get_neighbors_distinct:
  "n \<in> set (get_neighbors opt wifi) \<Longrightarrow> distinct n"
  by (auto simp: get_neighbors_member move_member)

subsection \<open>Scoring the neighbors and choosing the maximum\<close>

lemma score_neighbors_returns:
  "(\<And>n. n \<in> set ns \<Longrightarrow> \<exists>s. calculate_objective opt n = Inr s) \<Longrightarrow>
     \<exists>scored. score_neighbors opt ns = Inr scored"
proof (induction ns)
  case Nil
  show ?case by simp
next
  case (Cons n ns)
  obtain s where "calculate_objective opt n = Inr s" using Cons.prems[of n] by auto
  moreover obtain rest where "score_neighbors opt ns = Inr rest" using Cons by auto
  ultimately show ?case by simp
qed

lemma score_neighbors_rel:
  "score_neighbors opt ns = Inr scored \<Longrightarrow>
     list_all2 (\<lambda>n p. fst p = Some n \<and> calculate_objective opt n = Inr (snd p)) ns scored"
  by (induction ns arbitrary: scored) (auto split: sum.splits)

lemma max_from_start: "snd b \<le> snd (max_from b xs)"
proof (induction xs arbitrary: b)
  case Nil
  show ?case by simp
next
  case (Cons x xs)
  show ?case using Cons[of x] Cons[of b] by simp
qed

lemma max_from_upper: "p \<in> set (b # xs) \<Longrightarrow> snd p \<le> snd (max_from b xs)"
proof (induction xs arbitrary: b)
  case Nil
  then show ?case by simp
next
  case (Cons x xs)
  show ?case
    using Cons.prems Cons.IH[of x] Cons.IH[of b] max_from_start[of b xs] max_from_start[of x xs]
    by auto
qed

lemma max_from_first:
  "\<exists>i \<le> length xs. max_from b xs = (b # xs) ! i \<and>
      (\<forall>j < i. snd ((b # xs) ! j) < snd (max_from b xs))"
proof (induction xs arbitrary: b)
  case Nil
  show ?case by simp
next
  case (Cons x xs)
  show ?case
  proof (cases "snd x > snd b")
    case True
    from Cons.IH[of x] obtain i where i: "i \<le> length xs" "max_from x xs = (x # xs) ! i"
      "\<forall>j < i. snd ((x # xs) ! j) < snd (max_from x xs)" by blast
    have "snd b < snd (max_from x xs)"
      using True max_from_upper[of x x xs] by simp
    with i True have "Suc i \<le> length (x # xs) \<and> max_from b (x # xs) = (b # x # xs) ! Suc i \<and>
      (\<forall>j < Suc i. snd ((b # x # xs) ! j) < snd (max_from b (x # xs)))"
      by (auto simp: less_Suc_eq_0_disj)
    then show ?thesis by blast
  next
    case False
    from Cons.IH[of b] obtain i where i: "i \<le> length xs" "max_from b xs = (b # xs) ! i"
      "\<forall>j < i. snd ((b # xs) ! j) < snd (max_from b xs)" by blast
    show ?thesis
    proof (cases i)
      case 0
      with i False have "0 \<le> length (x # xs) \<and> max_from b (x # xs) = (b # x # xs) ! 0 \<and>
        (\<forall>j < 0. snd ((b # x # xs) ! j) < snd (max_from b (x # xs)))" by simp
      then show ?thesis by blast
    next
      case (Suc k)
      with i have "snd b < snd (max_from b xs)" by auto
      with i False Suc have "Suc i \<le> length (x # xs) \<and> max_from b (x # xs) = (b # x # xs) ! Suc i \<and>
        (\<forall>j < Suc i. snd ((b # x # xs) ! j) < snd (max_from b (x # xs)))"
        by (auto simp: less_Suc_eq_0_disj)
      then show ?thesis by blast
    qed
  qed
qed

lemma py_max_first:
  assumes "xs \<noteq> []"
  shows "\<exists>i < length xs. py_max xs d = xs ! i \<and>
      (\<forall>j < length xs. snd (xs ! j) \<le> snd (xs ! i)) \<and>
      (\<forall>j < i. snd (xs ! j) < snd (xs ! i))"
proof -
  from assms obtain b ys where xs: "xs = b # ys" by (cases xs) auto
  from max_from_first[of ys b] obtain i where i: "i \<le> length ys" "max_from b ys = (b # ys) ! i"
    "\<forall>j < i. snd ((b # ys) ! j) < snd (max_from b ys)" by blast
  have "\<forall>j < length xs. snd (xs ! j) \<le> snd (max_from b ys)"
    using max_from_upper[of _ b ys] xs by (metis nth_mem)
  with i xs show ?thesis by (intro exI[of _ i]) auto
qed

subsection \<open>One pass of the loop\<close>

lemma neighbor_objective_returns:
  "n \<in> set (get_neighbors opt wifi) \<Longrightarrow> \<exists>s. calculate_objective opt n = Inr s"
proof -
  assume "n \<in> set (get_neighbors opt wifi)"
  then have "n \<noteq> []" using get_neighbors_length[of n opt wifi] by auto
  then show ?thesis using calculate_objective_returns[of n opt] by simp
qed

lemma hc_body_returns:
  assumes "current_wifi st = Some wifi"
  shows "\<exists>r. hc_body opt st = Inr r"
proof -
  obtain scored where "score_neighbors opt (get_neighbors opt wifi) = Inr scored"
    using score_neighbors_returns[of "get_neighbors opt wifi" opt] neighbor_objective_returns
    by blast
  with assms show ?thesis
    by (auto simp: hc_body_def split: prod.splits)
qed

lemma hc_body_adopts:
  assumes body: "hc_body opt st = Inr (Some st')" and cur: "current_wifi st = Some wifi"
  shows "\<exists>i < length (get_neighbors opt wifi).
     current_wifi st' = Some (get_neighbors opt wifi ! i) \<and>
     calculate_objective opt (get_neighbors opt wifi ! i) = Inr (current_score st') \<and>
     (\<forall>j < length (get_neighbors opt wifi). \<exists>s.
        calculate_objective opt (get_neighbors opt wifi ! j) = Inr s \<and> s \<le> current_score st') \<and>
     (\<forall>j < i. \<exists>s.
        calculate_objective opt (get_neighbors opt wifi ! j) = Inr s \<and> s < current_score st')"
proof -
  let ?ns = "get_neighbors opt wifi"
  from body cur obtain scored where sc: "score_neighbors opt ?ns = Inr scored"
    by (auto simp: hc_body_def split: sum.splits)
  have rel: "list_all2 (\<lambda>n p. fst p = Some n \<and> calculate_objective opt n = Inr (snd p)) ?ns scored"
    using score_neighbors_rel[OF sc] .
  then have len: "length scored = length ?ns" by (simp add: list_all2_lengthD)
  have nth: "\<And>j. j < length ?ns \<Longrightarrow>
      fst (scored ! j) = Some (?ns ! j) \<and> calculate_objective opt (?ns ! j) = Inr (snd (scored ! j))"
    using rel by (simp add: list_all2_conv_all_nth)
  have ne: "scored \<noteq> []"
    using body cur sc by (auto simp: hc_body_def)
  from py_max_first[OF ne, of "(None, current_score st)"] obtain i where
    i: "i < length scored" "py_max scored (None, current_score st) = scored ! i"
       "\<forall>j < length scored. snd (scored ! j) \<le> snd (scored ! i)"
       "\<forall>j < i. snd (scored ! j) < snd (scored ! i)" by blast
  have st': "current_wifi st' = fst (scored ! i)" "current_score st' = snd (scored ! i)"
    using body cur sc i(2) by (auto simp: hc_body_def split: prod.splits if_splits)
  show ?thesis
    using i st' len nth by (intro exI[of _ i]) auto
qed

lemma hc_body_counters:
  "hc_body opt st = Inr (Some st') \<Longrightarrow>
     current_score st < current_score st' \<and>
     iterations st' = iterations st + 1 \<and> improvements st' = improvements st + 1"
  by (auto simp: hc_body_def split: option.splits sum.splits prod.splits if_splits)

lemma hc_body_consistent:
  assumes "hc_body opt st = Inr (Some st')" "consistent opt st"
  shows "consistent opt st'"
proof -
  from assms(2) obtain wifi where "current_wifi st = Some wifi" by (auto simp: consistent_def)
  from hc_body_adopts[OF assms(1) this] show ?thesis by (auto simp: consistent_def)
qed

lemma hc_loop_invariant:
  assumes "hc_loop opt max_iterations st = Inr st'" and "P st"
    and "\<And>s s'. P s \<Longrightarrow> iterations s < max_iterations \<Longrightarrow> hc_body opt s = Inr (Some s') \<Longrightarrow> P s'"
  shows "P st'"
  using assms
proof (induction opt max_iterations st rule: hc_loop.induct)
  case (1 opt max_iterations st)
  note step = "1.prems"(3)
  show ?case
  proof (cases "iterations st < max_iterations")
    case False
    with "1.prems" show ?thesis by (simp add: hc_loop.simps[of opt max_iterations st])
  next
    case True
    show ?thesis
    proof (cases "hc_body opt st")
      case (Inl e)
      with True "1.prems" show ?thesis by (simp add: hc_loop.simps[of opt max_iterations st])
    next
      case (Inr r)
      show ?thesis
      proof (cases r)
        case None
        with Inr True "1.prems" show ?thesis by (simp add: hc_loop.simps[of opt max_iterations st])
      next
        case (Some s')
        have "hc_loop opt max_iterations s' = Inr st'"
          using Some Inr True "1.prems"(1) by (simp add: hc_loop.simps[of opt max_iterations st])
        moreover have "P s'" using step[OF "1.prems"(2) True] Inr Some by simp
        ultimately show ?thesis using "1.IH"[OF True Inr Some] step by blast
      qed
    qed
  qed
qed

lemma hc_loop_returns:
  "current_wifi st \<noteq> None \<Longrightarrow> \<exists>st'. hc_loop opt max_iterations st = Inr st'"
proof (induction opt max_iterations st rule: hc_loop.induct)
  case (1 opt max_iterations st)
  show ?case
  proof (cases "iterations st < max_iterations")
    case False
    then show ?thesis by (simp add: hc_loop.simps[of opt max_iterations st])
  next
    case True
    from "1.prems" obtain wifi where w: "current_wifi st = Some wifi" by auto
    from hc_body_returns[OF w] obtain r where r: "hc_body opt st = Inr r" by blast
    show ?thesis
    proof (cases r)
      case None
      with r True show ?thesis by (simp add: hc_loop.simps[of opt max_iterations st])
    next
      case (Some s')
      from hc_body_adopts[OF _ w, of opt s'] r Some have "current_wifi s' \<noteq> None" by auto
      from "1.IH"[OF True r Some this] r Some True show ?thesis
        by (simp add: hc_loop.simps[of opt max_iterations st])
    qed
  qed
qed

subsection \<open>Unfolding the loop and its trace\<close>

lemma hc_loop_step:
  "iterations st < max_iterations \<Longrightarrow> hc_body opt st = Inr (Some st') \<Longrightarrow>
     hc_loop opt max_iterations st = hc_loop opt max_iterations st'"
  by (simp add: hc_loop.simps[of opt max_iterations st])

lemma hc_loop_stop:
  "\<not> iterations st < max_iterations \<or> hc_body opt st = Inr None \<Longrightarrow>
     hc_loop opt max_iterations st = Inr st"
  by (auto simp: hc_loop.simps[of opt max_iterations st])

lemma hc_trace_step:
  "iterations st < max_iterations \<Longrightarrow> hc_body opt st = Inr (Some st') \<Longrightarrow>
     hc_trace opt max_iterations st = st # hc_trace opt max_iterations st'"
  by (simp add: hc_trace.simps[of opt max_iterations st])

lemma hc_trace_stop:
  "\<not> iterations st < max_iterations \<or> hc_body opt st = Inr None \<or> hc_body opt st = Inl e \<Longrightarrow>
     hc_trace opt max_iterations st = [st]"
  by (auto simp: hc_trace.simps[of opt max_iterations st])

lemma hc_trace_cases:
  obtains (step) st' where "iterations st < max_iterations" "hc_body opt st = Inr (Some st')"
      "hc_trace opt max_iterations st = st # hc_trace opt max_iterations st'"
  | (stop) "hc_trace opt max_iterations st = [st]"
      "\<not> iterations st < max_iterations \<or> hc_body opt st = Inr None \<or> (\<exists>e. hc_body opt st = Inl e)"
proof (cases "iterations st < max_iterations")
  case False
  then show ?thesis using stop hc_trace_stop[of st max_iterations opt] by blast
next
  case True
  show ?thesis
  proof (cases "hc_body opt st")
    case (Inl e)
    then show ?thesis using stop hc_trace_stop[of st max_iterations opt e] by blast
  next
    case (Inr r)
    then show ?thesis
      using True step[of "the r"] stop hc_trace_stop[of st max_iterations opt]
        hc_trace_step[of st max_iterations opt "the r"]
      by (cases r) auto
  qed
qed

lemma hc_trace_hd: "\<exists>tl. hc_trace opt max_iterations st = st # tl"
  by (cases rule: hc_trace_cases[of st max_iterations opt]) auto

lemma hc_trace_sorted: "sorted_wrt (<) (map current_score (hc_trace opt max_iterations st))"
proof (induction opt max_iterations st rule: hc_trace.induct)
  case (1 opt max_iterations st)
  show ?case
  proof (cases rule: hc_trace_cases[of st max_iterations opt])
    case (step st')
    from hc_trace_hd[of opt max_iterations st'] obtain tl
      where tl: "hc_trace opt max_iterations st' = st' # tl" by blast
    have "sorted_wrt (<) (map current_score (st' # tl))"
      using "1.IH"[OF step(1,2) refl] tl by simp
    moreover have "current_score st < current_score st'"
      using hc_body_counters[OF step(2)] by simp
    ultimately show ?thesis
      using step(3) tl by auto
  next
    case stop
    then show ?thesis by simp
  qed
qed

lemma hc_trace_chain:
  "Suc k < length (hc_trace opt max_iterations st) \<Longrightarrow>
     hc_body opt (hc_trace opt max_iterations st ! k) =
       Inr (Some (hc_trace opt max_iterations st ! Suc k))"
proof (induction opt max_iterations st arbitrary: k rule: hc_trace.induct)
  case (1 opt max_iterations st)
  show ?case
  proof (cases rule: hc_trace_cases[of st max_iterations opt])
    case (step st')
    from hc_trace_hd[of opt max_iterations st'] obtain tl
      where tl: "hc_trace opt max_iterations st' = st' # tl" by blast
    show ?thesis
    proof (cases k)
      case 0
      then show ?thesis using step tl by simp
    next
      case (Suc k')
      then have "Suc k' < length (hc_trace opt max_iterations st')"
        using "1.prems" step(3) by simp
      from "1.IH"[OF step(1,2) refl this] show ?thesis using Suc step(3) by simp
    qed
  next
    case stop
    then show ?thesis using "1.prems" by simp
  qed
qed

lemma hc_trace_last:
  "hc_loop opt max_iterations st = Inr st' \<Longrightarrow>
     last (hc_trace opt max_iterations st) = st' \<and>
     int (length (hc_trace opt max_iterations st)) = iterations st' - iterations st + 1"
proof (induction opt max_iterations st rule: hc_trace.induct)
  case (1 opt max_iterations st)
  show ?case
  proof (cases rule: hc_trace_cases[of st max_iterations opt])
    case (step s)
    from hc_trace_hd[of opt max_iterations s] obtain tl
      where tl: "hc_trace opt max_iterations s = s # tl" by blast
    have "hc_loop opt max_iterations s = Inr st'"
      using "1.prems" hc_loop_step[OF step(1,2)] by simp
    from "1.IH"[OF step(1,2) refl this] show ?thesis
      using step(3) tl hc_body_counters[OF step(2)] by simp
  next
    case stop
    then have "st' = st"
      using "1.prems" by (auto simp: hc_loop.simps[of opt max_iterations st] split: if_splits)
    then show ?thesis using stop by simp
  qed
qed

lemma hc_trace_consistent:
  "consistent opt st \<Longrightarrow> s \<in> set (hc_trace opt max_iterations st) \<Longrightarrow> consistent opt s"
proof (induction opt max_iterations st rule: hc_trace.induct)
  case (1 opt max_iterations st)
  show ?case
  proof (cases rule: hc_trace_cases[of st max_iterations opt])
    case (step st')
    then show ?thesis
      using "1.IH"[OF step(1,2) refl] "1.prems" hc_body_consistent[OF step(2)] by auto
  next
    case stop
    then show ?thesis using "1.prems" by simp
  qed
qed

subsection \<open>The run as a whole\<close>

lemma hill_climbing_Inr:
  assumes "hill_climbing opt initial_wifi max_iterations = Inr r"
  obtains s st where "calculate_objective opt initial_wifi = Inr s"
    "hc_loop opt max_iterations
       \<lparr>current_wifi = Some initial_wifi, current_score = s, iterations = 0, improvements = 0\<rparr> = Inr st"
    "r = \<lparr>wifi_positions = current_wifi st, score = current_score st,
          res_iterations = iterations st, res_improvements = improvements st\<rparr>"
  using assms by (auto simp: hill_climbing_def split: sum.splits)

lemma hill_climbing_total:
  assumes "initial_wifi \<noteq> [] \<or> computers opt = []"
  shows "\<exists>r. hill_climbing opt initial_wifi max_iterations = Inr r"
proof -
  from calculate_objective_returns[OF assms] obtain s
    where s: "calculate_objective opt initial_wifi = Inr s" by blast
  from hc_loop_returns[of "\<lparr>current_wifi = Some initial_wifi, current_score = s,
      iterations = 0, improvements = 0\<rparr>" opt max_iterations]
  obtain st where "hc_loop opt max_iterations \<lparr>current_wifi = Some initial_wifi, current_score = s,
      iterations = 0, improvements = 0\<rparr> = Inr st" by auto
  with s show ?thesis by (simp add: hill_climbing_def)
qed


lemma no_neighbors_stay:
  assumes "get_neighbors opt initial_wifi = []" "calculate_objective opt initial_wifi = Inr s"
  shows "hill_climbing opt initial_wifi max_iterations =
     Inr \<lparr>wifi_positions = Some initial_wifi, score = s, res_iterations = 0, res_improvements = 0\<rparr>"
proof -
  let ?st = "\<lparr>current_wifi = Some initial_wifi, current_score = s, iterations = 0, improvements = 0\<rparr>"
  have "hc_body opt ?st = Inr None" using assms(1) by (simp add: hc_body_def)
  then have "hc_loop opt max_iterations ?st = Inr ?st" using hc_loop_stop by blast
  with assms(2) show ?thesis by (simp add: hill_climbing_def)
qed

lemma single_cell_no_neighbors:
  assumes "grid_size opt \<le> 1" "in_bounds (grid_size opt) wifi"
  shows "get_neighbors opt wifi = []"
proof -
  have "move (grid_size opt) wifi i d = []" if "i < length wifi" "d \<in> set directions" for i d
  proof -
    have "wifi ! i \<in> set wifi" using that(1) by simp
    then have "fst (wifi ! i) = 0 \<and> snd (wifi ! i) = 0 \<and> grid_size opt = 1"
      using assms by (auto simp: in_bounds_def)
    then show ?thesis using that(2) by (auto simp: move_def directions_def)
  qed
  then show ?thesis by (simp add: get_neighbors_def)
qed

subsection \<open>The steps of the worked scenario\<close>

lemma two_clients:
  assumes "distinct cs" "set cs = {a, b}" "a \<noteq> b"
  shows "cs = [a, b] \<or> cs = [b, a]"
proof -
  have "length cs = 2" using assms distinct_card[of cs] by simp
  then obtain x y where cs: "cs = [x, y]"
    by (metis (no_types, opaque_lifting) One_nat_def Suc_1 length_0_conv length_Suc_conv)
  with assms show ?thesis by auto
qed

lemmas hc_defs = hc_body_def get_neighbors_def move_def directions_def calculate_objective_def
  manhattan_distance_def

lemma scen_step1:
  assumes "grid_size opt = 3" "computers opt = [(0,0),(0,2)] \<or> computers opt = [(0,2),(0,0)]"
  shows "hc_body opt \<lparr>current_wifi = Some [(2,2)], current_score = -6, iterations = 0, improvements = 0\<rparr>
       = Inr (Some \<lparr>current_wifi = Some [(1,2)], current_score = -4, iterations = 1, improvements = 1\<rparr>)"
  using assms by (auto simp: hc_defs)

lemma scen_step2:
  assumes "grid_size opt = 3" "computers opt = [(0,0),(0,2)] \<or> computers opt = [(0,2),(0,0)]"
  shows "hc_body opt \<lparr>current_wifi = Some [(1,2)], current_score = -4, iterations = 1, improvements = 1\<rparr>
       = Inr (Some \<lparr>current_wifi = Some [(0,2)], current_score = -2, iterations = 2, improvements = 2\<rparr>)"
  using assms by (auto simp: hc_defs)

lemma scen_step3:
  assumes "grid_size opt = 3" "computers opt = [(0,0),(0,2)] \<or> computers opt = [(0,2),(0,0)]"
  shows "hc_body opt \<lparr>current_wifi = Some [(0,2)], current_score = -2, iterations = 2, improvements = 2\<rparr>
       = Inr None"
  using assms by (auto simp: hc_defs)

lemma scen_init:
  assumes "computers opt = [(0,0),(0,2)] \<or> computers opt = [(0,2),(0,0)]"
  shows "calculate_objective opt [(2,2)] = Inr (-6)"
  using assms by (auto simp: hc_defs)

lemma scen_loop:
  assumes "grid_size opt = 3" "computers opt = [(0,0),(0,2)] \<or> computers opt = [(0,2),(0,0)]"
    and "2 \<le> max_iterations"
  shows "hc_loop opt max_iterations (scenario_state (2,2) (-6) 0) = Inr (scenario_state (0,2) (-2) 2)"
proof -
  have "hc_loop opt max_iterations (scenario_state (0,2) (-2) 2) = Inr (scenario_state (0,2) (-2) 2)"
    using hc_loop_stop[of _ max_iterations opt] scen_step3[OF assms(1,2)] by simp
  then have "hc_loop opt max_iterations (scenario_state (1,2) (-4) 1) = Inr (scenario_state (0,2) (-2) 2)"
    using assms(3) hc_loop_step[OF _ scen_step2[OF assms(1,2)], of max_iterations] by simp
  then show ?thesis
    using assms(3) hc_loop_step[OF _ scen_step1[OF assms(1,2)], of max_iterations] by simp
qed

lemma scen_trace:
  assumes "grid_size opt = 3" "computers opt = [(0,0),(0,2)] \<or> computers opt = [(0,2),(0,0)]"
    and "2 \<le> max_iterations"
  shows "hc_trace opt max_iterations (scenario_state (2,2) (-6) 0) =
     [scenario_state (2,2) (-6) 0, scenario_state (1,2) (-4) 1, scenario_state (0,2) (-2) 2]"
proof -
  have "hc_trace opt max_iterations (scenario_state (0,2) (-2) 2) = [scenario_state (0,2) (-2) 2]"
    using hc_trace_stop[of _ max_iterations opt] scen_step3[OF assms(1,2)] by simp
  then have "hc_trace opt max_iterations (scenario_state (1,2) (-4) 1) =
      [scenario_state (1,2) (-4) 1, scenario_state (0,2) (-2) 2]"
    using assms(3) hc_trace_step[OF _ scen_step2[OF assms(1,2)], of max_iterations] by simp
  then show ?thesis
    using assms(3) hc_trace_step[OF _ scen_step1[OF assms(1,2)], of max_iterations] by simp
qed

lemma scen_run:
  assumes "grid_size opt = 3" "computers opt = [(0,0),(0,2)] \<or> computers opt = [(0,2),(0,0)]"
    and "2 \<le> max_iterations"
  shows "hill_climbing opt [(2,2)] max_iterations =
     Inr \<lparr>wifi_positions = Some [(0,2)], score = -2, res_iterations = 2, res_improvements = 2\<rparr>"
  using scen_loop[OF assms] scen_init[OF assms(2)] by (simp add: hill_climbing_def)

lemma scen_run_500:
  "hill_climbing scenario [(2,2)] 500 =
     Inr \<lparr>wifi_positions = Some [(0,2)], score = -2, res_iterations = 2, res_improvements = 2\<rparr>"
  by (rule scen_run) simp_all


subsection \<open>Order of the neighbor list\<close>

lemma get_neighbors_product:
  "get_neighbors opt wifi =
     concat (map (\<lambda>(i, d). move (grid_size opt) wifi i d)
                 (List.product [0 ..< length wifi] directions))"
proof -
  have "concat (map (\<lambda>i. concat (map (f i) ds)) xs) =
        concat (map (\<lambda>(i, d). f i d) (List.product xs ds))"
    for f :: "nat \<Rightarrow> int \<times> int \<Rightarrow> placement list" and ds xs
    by (induction xs) (simp_all add: comp_def)
  then show ?thesis by (simp add: get_neighbors_def)
qed

lemma hc_body_independent:
  "grid_size opt' = grid_size opt \<Longrightarrow> computers opt' = computers opt \<Longrightarrow>
     hc_body opt' st = hc_body opt st"
proof -
  assume a: "grid_size opt' = grid_size opt" "computers opt' = computers opt"
  have obj: "calculate_objective opt' = calculate_objective opt"
    using a by (auto simp: calculate_objective_def fun_eq_iff)
  have sc: "score_neighbors opt' ns = score_neighbors opt ns" for ns
    by (induction ns) (auto simp: obj split: sum.splits)
  have "get_neighbors opt' = get_neighbors opt"
    using a by (auto simp: get_neighbors_def fun_eq_iff)
  then show ?thesis by (auto simp: hc_body_def sc split: option.splits)
qed

subsection \<open>Generated positions\<close>

lemma randint_range:
  "randint a b rng = Inr (v, rng') \<Longrightarrow> a \<le> v \<and> v \<le> b"
proof -
  assume r: "randint a b rng = Inr (v, rng')"
  then have ab: "a \<le> b" and v: "v = a + int (rng 0 mod nat (b - a + 1))"
    by (auto simp: randint_def split: if_splits)
  have "rng 0 mod nat (b - a + 1) < nat (b - a + 1)" using ab by simp
  then have "int (rng 0 mod nat (b - a + 1)) < b - a + 1" using ab by linarith
  with v show ?thesis by simp
qed

lemma random_pos_in_bounds:
  "random_pos gs rng = Inr (p, rng') \<Longrightarrow> in_bounds gs [p]"
  by (auto simp: random_pos_def in_bounds_def split: sum.splits prod.splits dest!: randint_range)

lemma random_positions_in_bounds:
  "random_positions gs k rng = Inr (ps, rng') \<Longrightarrow> in_bounds gs ps"
proof (induction k arbitrary: rng ps)
  case 0
  then show ?case by (simp add: in_bounds_def)
next
  case (Suc k)
  from Suc.prems obtain p rng1 qs where p: "random_pos gs rng = Inr (p, rng1)"
    and qs: "random_positions gs k rng1 = Inr (qs, rng')" and ps: "ps = p # qs"
    by (auto split: sum.splits prod.splits)
  from random_pos_in_bounds[OF p] Suc.IH[OF qs] ps show ?case
    by (simp add: in_bounds_def)
qed

lemma generate_random_positions_ok:
  "generate_random_positions gs n rng = Inr (ps, rng') \<Longrightarrow> in_bounds gs ps \<and> distinct ps"
proof -
  assume "generate_random_positions gs n rng = Inr (ps, rng')"
  then obtain drawn where d: "random_positions gs (nat n) rng = Inr (drawn, rng')"
    and ps: "ps = remdups drawn"
    by (auto simp: generate_random_positions_def list_of_set_def split: sum.splits prod.splits)
  from random_positions_in_bounds[OF d] ps show ?thesis by (simp add: in_bounds_def)
qed

lemma neighbor_in_bounds:
  assumes "in_bounds (grid_size opt) wifi" "n \<in> set (get_neighbors opt wifi)"
  shows "in_bounds (grid_size opt) n"
proof -
  from assms(2) obtain i d where i: "i < length wifi"
    and n: "n \<in> set (move (grid_size opt) wifi i d)"
    by (auto simp: get_neighbors_member)
  let ?p = "(fst (wifi ! i) + fst d, snd (wifi ! i) + snd d)"
  from n have upd: "n = wifi[i := ?p]" and
    b: "0 \<le> fst ?p \<and> fst ?p < grid_size opt \<and> 0 \<le> snd ?p \<and> snd ?p < grid_size opt"
    by (auto simp: move_member)
  have "set n \<subseteq> insert ?p (set wifi)" using upd set_update_subset_insert by metis
  with assms(1) b show ?thesis by (auto simp: in_bounds_def)
qed

subsection \<open>Evaluations on two small instances\<close>

lemma tie_step:
  "hc_body tie \<lparr>current_wifi = Some [(0,0)], current_score = -2, iterations = 0, improvements = 0\<rparr>
     = Inr (Some \<lparr>current_wifi = Some [(1,0)], current_score = -1, iterations = 1, improvements = 1\<rparr>)"
  by (simp add: hc_defs)

lemma tie_neighbors: "get_neighbors tie [(0,0)] = [[(1,0)], [(0,1)]]"
  by (simp add: hc_defs)

lemma tie_scores:
  "calculate_objective tie [(1,0)] = Inr (-1) \<and> calculate_objective tie [(0,1)] = Inr (-1)"
  by (simp add: hc_defs)

lemma pair_generated:
  "map_sum id fst (generate_random_wifi pair_instance id) = Inr [(0,1),(2,0)]"
  by code_simp

lemma pair_neighbor:
  "[(0,1),(1,0)] \<in> set (get_neighbors pair_instance [(0,1),(2,0)])"
  by code_simp

lemma pair_bounds: "in_bounds 3 [(0,1),(2,0)] \<and> in_bounds 3 [(0,1),(1,0)]"
  by (simp add: in_bounds_def)

subsection \<open>The restart loop\<close>

lemma hill_climbing_consistent:
  assumes "hill_climbing opt initial_wifi max_iterations = Inr r"
  shows "\<exists>wifi. wifi_positions r = Some wifi \<and> calculate_objective opt wifi = Inr (score r)"
proof -
  from assms obtain s st where s: "calculate_objective opt initial_wifi = Inr s"
    and loop: "hc_loop opt max_iterations
       \<lparr>current_wifi = Some initial_wifi, current_score = s, iterations = 0, improvements = 0\<rparr> = Inr st"
    and r: "r = \<lparr>wifi_positions = current_wifi st, score = current_score st,
          res_iterations = iterations st, res_improvements = improvements st\<rparr>"
    by (rule hill_climbing_Inr)
  have "consistent opt st"
    by (rule hc_loop_invariant[OF loop, where P = "consistent opt"])
       (use s in \<open>auto simp: consistent_def intro: hc_body_consistent[unfolded consistent_def]\<close>)
  with r show ?thesis by (auto simp: consistent_def)
qed

lemma restart_body_Inr:
  assumes "restart_body opt max_iterations st restart = Inr st'"
  shows "\<exists>w g' r. generate_random_wifi opt (generator st) = Inr (w, g') \<and>
    hill_climbing opt w max_iterations = Inr r \<and>
    all_results st' = all_results st @ [r] \<and>
    total_improvements st' = total_improvements st + res_improvements r \<and>
    generator st' = g' \<and>
    (if exceeds (score r) (best_score st)
     then best_score st' = Score (score r) \<and> best_solution st' = wifi_positions r \<and>
          best_restart_num st' = restart + 1
     else best_score st' = best_score st \<and> best_solution st' = best_solution st \<and>
          best_restart_num st' = best_restart_num st)"
proof (cases "generate_random_wifi opt (generator st)")
  case (Inl e)
  with assms show ?thesis by (simp add: restart_body_def)
next
  case (Inr p)
  obtain w g' where p: "p = (w, g')" by (cases p)
  show ?thesis
  proof (cases "hill_climbing opt w max_iterations")
    case (Inl e)
    with assms Inr p show ?thesis by (simp add: restart_body_def)
  next
    case r: (Inr r)
    have "st' = (if exceeds (score r) (best_score st)
        then st\<lparr>all_results := all_results st @ [r],
                total_improvements := total_improvements st + res_improvements r,
                generator := g', best_score := Score (score r),
                best_solution := wifi_positions r, best_restart_num := restart + 1\<rparr>
        else st\<lparr>all_results := all_results st @ [r],
                total_improvements := total_improvements st + res_improvements r,
                generator := g'\<rparr>)"
      using assms Inr p r by (simp add: restart_body_def Let_def split: if_splits)
    then have "all_results st' = all_results st @ [r] \<and>
        total_improvements st' = total_improvements st + res_improvements r \<and>
        generator st' = g' \<and>
        (if exceeds (score r) (best_score st)
         then best_score st' = Score (score r) \<and> best_solution st' = wifi_positions r \<and>
              best_restart_num st' = restart + 1
         else best_score st' = best_score st \<and> best_solution st' = best_solution st \<and>
              best_restart_num st' = best_restart_num st)"
      by (cases "exceeds (score r) (best_score st)") simp_all
    with Inr p r show ?thesis by blast
  qed
qed

lemma restart_body_tracks:
  assumes body: "restart_body opt max_iterations st (int (length (all_results st))) = Inr st'"
    and tb: "tracks_best st"
  shows "tracks_best st'"
proof -
  from restart_body_Inr[OF body] obtain r where rs: "all_results st' = all_results st @ [r]"
    and upd: "if exceeds (score r) (best_score st)
       then best_score st' = Score (score r) \<and> best_solution st' = wifi_positions r \<and>
            best_restart_num st' = int (length (all_results st)) + 1
       else best_score st' = best_score st \<and> best_solution st' = best_solution st \<and>
            best_restart_num st' = best_restart_num st"
    by blast
  have yes: "exceeds (score r) (best_score st) \<Longrightarrow>
       best_score st' = Score (score r) \<and> best_solution st' = wifi_positions r \<and>
       best_restart_num st' = int (length (all_results st)) + 1"
    and no: "\<not> exceeds (score r) (best_score st) \<Longrightarrow>
       best_score st' = best_score st \<and> best_solution st' = best_solution st \<and>
       best_restart_num st' = best_restart_num st"
    using upd by simp_all
  let ?rs = "all_results st" and ?n = "length (all_results st)"
  show ?thesis
  proof (cases "exceeds (score r) (best_score st)")
    case True
    have "\<forall>j < ?n. score (?rs ! j) < score r"
      using tb True by (auto simp: tracks_best_def)
    then have "?n < length (all_results st') \<and>
        best_score st' = Score (score (all_results st' ! ?n)) \<and>
        best_restart_num st' = int ?n + 1 \<and>
        best_solution st' = wifi_positions (all_results st' ! ?n) \<and>
        (\<forall>j < length (all_results st'). score (all_results st' ! j) \<le> score (all_results st' ! ?n)) \<and>
        (\<forall>j < ?n. score (all_results st' ! j) < score (all_results st' ! ?n))"
      using yes[OF True] rs by (auto simp: nth_append less_Suc_eq)
    then show ?thesis unfolding tracks_best_def by blast
  next
    case False
    then obtain b where b: "best_score st = Score b" "score r \<le> b"
      by (cases "best_score st") auto
    with tb obtain i where i: "i < ?n" "best_score st = Score (score (?rs ! i))"
      "best_restart_num st = int i + 1" "best_solution st = wifi_positions (?rs ! i)"
      "\<forall>j < ?n. score (?rs ! j) \<le> score (?rs ! i)" "\<forall>j < i. score (?rs ! j) < score (?rs ! i)"
      by (auto simp: tracks_best_def)
    have "i < length (all_results st') \<and>
        best_score st' = Score (score (all_results st' ! i)) \<and>
        best_restart_num st' = int i + 1 \<and>
        best_solution st' = wifi_positions (all_results st' ! i) \<and>
        (\<forall>j < length (all_results st'). score (all_results st' ! j) \<le> score (all_results st' ! i)) \<and>
        (\<forall>j < i. score (all_results st' ! j) < score (all_results st' ! i))"
      using no[OF False] rs i b by (auto simp: nth_append less_Suc_eq)
    then show ?thesis unfolding tracks_best_def by blast
  qed
qed

lemma restart_loop_tracks:
  assumes "restart_loop opt max_iterations st (map int [k ..< n]) = Inr st'"
    and "k = length (all_results st)" "k \<le> n"
    and "tracks_best st" "generated_runs opt max_iterations (all_results st)"
  shows "tracks_best st' \<and> length (all_results st') = n \<and>
         generated_runs opt max_iterations (all_results st')"
  using assms
proof (induction "n - k" arbitrary: k st)
  case 0
  then show ?case by simp
next
  case (Suc d)
  then have kn: "k < n" by simp
  then have upt: "[k ..< n] = k # [Suc k ..< n]" by (simp add: upt_conv_Cons)
  from Suc.prems(1) upt obtain st1 where
    b: "restart_body opt max_iterations st (int k) = Inr st1"
    and l: "restart_loop opt max_iterations st1 (map int [Suc k ..< n]) = Inr st'"
    by (auto split: sum.splits)
  from restart_body_Inr[OF b] obtain w g' r
    where g: "generate_random_wifi opt (generator st) = Inr (w, g')"
    and h: "hill_climbing opt w max_iterations = Inr r"
    and rs: "all_results st1 = all_results st @ [r]"
    by blast
  have tb1: "tracks_best st1" using restart_body_tracks[of opt max_iterations st st1] b Suc.prems by simp
  have gr1: "generated_runs opt max_iterations (all_results st1)"
    using Suc.prems(5) g h rs by (auto simp: generated_runs_def)
  have "d = n - Suc k" using Suc.hyps(2) by simp
  from Suc.hyps(1)[OF this l _ _ tb1 gr1] rs Suc.prems(2) kn show ?case by simp
qed

lemma tracks_best_Max:
  assumes "i < length rs" "\<forall>j < length rs. score (rs ! j) \<le> score (rs ! i)"
  shows "score (rs ! i) = Max (set (map score rs))"
proof -
  have "score (rs ! i) \<in> set (map score rs)" using assms(1) by simp
  moreover have "\<forall>x \<in> set (map score rs). x \<le> score (rs ! i)"
    using assms(2) by (auto simp: in_set_conv_nth)
  ultimately show ?thesis by (intro Max_eqI[symmetric]) auto
qed

lemma restart_Inr:
  assumes "hill_climbing_with_random_restart opt num_restarts max_iterations verbose rng = Inr (res, rng')"
  obtains st worst where
    "restart_loop opt max_iterations
       \<lparr>best_solution = None, best_score = MinusInf, best_restart_num = 0,
        all_results = [], total_improvements = 0, generator = rng\<rparr>
       (map int [0 ..< nat num_restarts]) = Inr st"
    "res = \<lparr>best_wifi_positions = best_solution st, res_best_score = best_score st,
            res_best_restart_num = best_restart_num st, total_restarts = num_restarts,
            res_all_results = all_results st,
            stats = \<lparr>stat_best_score = best_score st, worst_score = worst,
                     unique_solutions = card (set (map score (all_results st))),
                     stat_total_improvements = total_improvements st\<rparr>\<rparr>"
  using assms
  by (auto simp: hill_climbing_with_random_restart_def py_range_def Let_def
           split: sum.splits if_splits)

subsection \<open>When generation returns and when it raises\<close>

lemma random_pos_returns: "1 \<le> gs \<Longrightarrow> \<exists>p g. random_pos gs rng = Inr (p, g)"
  by (simp add: random_pos_def randint_def)

lemma random_pos_raises: "gs \<le> 0 \<Longrightarrow> random_pos gs rng = Inl ValueError"
  by (simp add: random_pos_def randint_def)

lemma random_positions_returns:
  "1 \<le> gs \<Longrightarrow> \<exists>ps g. random_positions gs k rng = Inr (ps, g) \<and> length ps = k"
proof (induction k arbitrary: rng)
  case 0
  show ?case by simp
next
  case (Suc k)
  from random_pos_returns[OF Suc.prems] obtain p g1 where p: "random_pos gs rng = Inr (p, g1)"
    by blast
  from Suc.IH[OF Suc.prems, of g1] obtain ps g2
    where "random_positions gs k g1 = Inr (ps, g2)" "length ps = k" by blast
  with p show ?case by simp
qed

lemma generate_random_positions_raises:
  "gs \<le> 0 \<Longrightarrow> 1 \<le> n \<Longrightarrow> generate_random_positions gs n rng = Inl ValueError"
proof -
  assume gs: "gs \<le> 0" and n: "1 \<le> n"
  then obtain k where k: "nat n = Suc k" by (cases "nat n") auto
  show ?thesis
    by (simp add: generate_random_positions_def k random_pos_raises[OF gs])
qed

lemma generate_random_positions_none:
  "n \<le> 0 \<Longrightarrow> generate_random_positions gs n rng = Inr ([], rng)"
  by (simp add: generate_random_positions_def list_of_set_def)

lemma generate_random_wifi_returns:
  assumes "1 \<le> grid_size opt" "1 \<le> num_wifi opt"
  shows "\<exists>w g. generate_random_wifi opt rng = Inr (w, g) \<and> w \<noteq> []"
proof -
  from random_positions_returns[OF assms(1), of "nat (num_wifi opt)" rng] obtain ps g
    where ps: "random_positions (grid_size opt) (nat (num_wifi opt)) rng = Inr (ps, g)"
      "length ps = nat (num_wifi opt)" by blast
  then have "ps \<noteq> []" using assms(2) by auto
  then have "remdups ps \<noteq> []" by simp
  with ps show ?thesis
    by (simp add: generate_random_wifi_def generate_random_positions_def list_of_set_def)
qed

lemma restart_body_returns:
  assumes "1 \<le> grid_size opt" "1 \<le> num_wifi opt"
  shows "\<exists>st'. restart_body opt max_iterations st restart = Inr st'"
proof -
  from generate_random_wifi_returns[OF assms, of "generator st"] obtain w g
    where w: "generate_random_wifi opt (generator st) = Inr (w, g)" "w \<noteq> []" by blast
  from hill_climbing_total[of w opt max_iterations] w(2) obtain r
    where "hill_climbing opt w max_iterations = Inr r" by blast
  with w show ?thesis by (simp add: restart_body_def Let_def)
qed

lemma restart_loop_returns:
  assumes "1 \<le> grid_size opt" "1 \<le> num_wifi opt"
  shows "\<exists>st'. restart_loop opt max_iterations st ks = Inr st'"
proof (induction ks arbitrary: st)
  case Nil
  show ?case by simp
next
  case (Cons k ks)
  from restart_body_returns[OF assms, of max_iterations st k] obtain st1
    where "restart_body opt max_iterations st k = Inr st1" by blast
  with Cons[of st1] show ?case by simp
qed

lemma restart_none:
  "num_restarts < 1 \<Longrightarrow>
     hill_climbing_with_random_restart opt num_restarts max_iterations verbose rng = Inl ValueError"
  by (simp add: hill_climbing_with_random_restart_def py_range_def)

lemma restart_no_grid:
  assumes "grid_size opt \<le> 0" "1 \<le> num_wifi opt" "1 \<le> num_restarts"
  shows "hill_climbing_with_random_restart opt num_restarts max_iterations verbose rng
           = Inl ValueError"
proof -
  have "[0 ..< nat num_restarts] = 0 # [Suc 0 ..< nat num_restarts]"
    using assms(3) by (simp add: upt_conv_Cons)
  moreover have "restart_body opt max_iterations st 0 = Inl ValueError" for st
    using generate_random_positions_raises[OF assms(1,2)]
    by (simp add: restart_body_def generate_random_wifi_def)
  ultimately show ?thesis
    by (simp add: hill_climbing_with_random_restart_def py_range_def)
qed

lemma restart_end:
  assumes loop: "restart_loop opt max_iterations (start rng) (map int [0 ..< nat num_restarts]) = Inr st"
    and n: "1 \<le> num_restarts"
  shows "length (all_results st) = nat num_restarts \<and>
    generated_runs opt max_iterations (all_results st) \<and>
    (\<exists>i < length (all_results st).
        best_score st = Score (score (all_results st ! i)) \<and>
        best_restart_num st = int i + 1 \<and>
        best_solution st = wifi_positions (all_results st ! i) \<and>
        (\<forall>j < length (all_results st). score (all_results st ! j) \<le> score (all_results st ! i)) \<and>
        (\<forall>j < i. score (all_results st ! j) < score (all_results st ! i)))"
proof -
  have "tracks_best (start rng)" by (simp add: tracks_best_def)
  moreover have "generated_runs opt max_iterations (all_results (start rng))"
    by (simp add: generated_runs_def)
  ultimately have t: "tracks_best st \<and> length (all_results st) = nat num_restarts \<and>
         generated_runs opt max_iterations (all_results st)"
    using restart_loop_tracks[OF loop] by simp
  then have "all_results st \<noteq> []" using n by auto
  with t show ?thesis by (auto simp: tracks_best_def)
qed

lemma restart_returns:
  assumes "1 \<le> grid_size opt" "1 \<le> num_wifi opt" "1 \<le> num_restarts"
    and "verbose \<longrightarrow> computers opt \<noteq> []"
  shows "\<exists>res g. hill_climbing_with_random_restart opt num_restarts max_iterations verbose rng
           = Inr (res, g)"
proof -
  from restart_loop_returns[OF assms(1,2)] obtain st where
    loop: "restart_loop opt max_iterations (start rng) (map int [0 ..< nat num_restarts]) = Inr st"
    by blast
  from restart_end[OF loop assms(3)] obtain i where len: "length (all_results st) = nat num_restarts"
    and gen: "generated_runs opt max_iterations (all_results st)"
    and i: "i < length (all_results st)" "best_solution st = wifi_positions (all_results st ! i)"
    by blast
  have "map score (all_results st) \<noteq> []" using len assms(3) by auto
  then obtain worst where worst: "py_min (map score (all_results st)) = Inr worst"
    using py_min_nonempty by blast
  from gen i(1) obtain w0 where "hill_climbing opt w0 max_iterations = Inr (all_results st ! i)"
    unfolding generated_runs_def using nth_mem by blast
  from hill_climbing_consistent[OF this] i(2) obtain w s where
    w: "best_solution st = Some w" "calculate_objective opt w = Inr s" by auto
  then obtain t where "total_distance (computers opt) w = Inr t"
    by (auto simp: calculate_objective_def split: sum.splits)
  with w(1) assms(3,4) loop worst show ?thesis
    by (simp add: hill_climbing_with_random_restart_def py_range_def Let_def
                  print_analysis_def calculate_average_distance_def)
qed

subsection \<open>Evaluations of the restart controller\<close>

lemma six_starts_run:
  "map_sum id fst (hill_climbing_with_random_restart scenario 6 0 True (\<lambda>k. k + 2)) = Inr six_starts"
  by code_simp

lemma unchecked_init: "init 0 (- 1) (- 1) id = Inr (lax, id)"
  by (simp add: init_def generate_random_computers_def generate_random_positions_none)

lemma unchecked_run:
  "map_sum id fst (hill_climbing_with_random_restart lax 1 500 False id) =
     Inr \<lparr>best_wifi_positions = Some [], res_best_score = Score 0,
          res_best_restart_num = 1, total_restarts = 1,
          res_all_results =
            [\<lparr>wifi_positions = Some [], score = 0, res_iterations = 0, res_improvements = 0\<rparr>],
          stats = \<lparr>stat_best_score = Score 0, worst_score = 0, unique_solutions = 1,
                    stat_total_improvements = 0\<rparr>\<rparr>"
  by code_simp

section \<open>Claims\<close>

text \<open>
  C1. With the clients \<open>(0,0)\<close> and \<open>(0,2)\<close> on a grid of size 3 (in either order of
  the list \<open>computers\<close>), a run from the placement \<open>[(2,2)]\<close> with a step cap of at least
  2 returns the placement \<open>[(0,2)]\<close>, the score -2, two iterations and two improvements.
\<close>

theorem scenario_run:
  assumes "grid_size opt = 3" "distinct (computers opt)" "set (computers opt) = {(0,0),(0,2)}"
    and "2 \<le> max_iterations"
  shows "hill_climbing opt [(2,2)] max_iterations =
     Inr \<lparr>wifi_positions = Some [(0,2)], score = -2, res_iterations = 2, res_improvements = 2\<rparr>"
proof -
  have "computers opt = [(0,0),(0,2)] \<or> computers opt = [(0,2),(0,0)]"
    using two_clients[OF assms(2,3)] by simp
  from scen_run[OF assms(1) this assms(4)] show ?thesis .
qed

theorem scenario_run_witness:
  "grid_size \<lparr>grid_size = 3, num_computers = 2, num_wifi = 1, computers = [(0,0),(0,2)]\<rparr> = 3 \<and>
   distinct [(0,0),(0,2::int)] \<and> set [(0,0),(0,2)] = {(0::int,0::int),(0,2)} \<and> (2::int) \<le> 500 \<and>
   hill_climbing \<lparr>grid_size = 3, num_computers = 2, num_wifi = 1, computers = [(0,0),(0,2)]\<rparr>
       [(2,2)] 500 =
     Inr \<lparr>wifi_positions = Some [(0,2)], score = -2, res_iterations = 2, res_improvements = 2\<rparr>"
  using scenario_run[of "\<lparr>grid_size = 3, num_computers = 2, num_wifi = 1, computers = [(0,0),(0,2)]\<rparr>" 500]
  by simp

text \<open>
  C2. \<open>hill_climbing\<close> does not return for every starting placement and every client
  set: from the empty placement with one client the objective takes the minimum of an
  empty sequence, and the run raises \<open>ValueError\<close>.
\<close>

theorem empty_placement_raises:
  "hill_climbing \<lparr>grid_size = 3, num_computers = 1, num_wifi = 0, computers = [(0,0)]\<rparr> [] 500
     = Inl ValueError"
  by (simp add: hill_climbing_def calculate_objective_def)

text \<open>
  C2, as amended. From every non-empty starting placement, and from the empty one when
  there is no client, \<open>hill_climbing\<close> returns a result, whatever the step cap. From the
  empty placement without clients, and from a non-empty placement inside a grid of a single
  cell, the result is the starting placement with its score, zero iterations and zero
  improvements.
\<close>

theorem hill_climbing_returns:
  "(initial_wifi \<noteq> [] \<or> computers opt = [] \<longrightarrow>
      (\<exists>r. hill_climbing opt initial_wifi max_iterations = Inr r)) \<and>
   (computers opt = [] \<longrightarrow>
      hill_climbing opt [] max_iterations =
        Inr \<lparr>wifi_positions = Some [], score = 0, res_iterations = 0, res_improvements = 0\<rparr>) \<and>
   (grid_size opt = 1 \<and> initial_wifi \<noteq> [] \<and> in_bounds 1 initial_wifi \<longrightarrow>
      (\<exists>s. calculate_objective opt initial_wifi = Inr s \<and>
           hill_climbing opt initial_wifi max_iterations =
             Inr \<lparr>wifi_positions = Some initial_wifi, score = s,
                  res_iterations = 0, res_improvements = 0\<rparr>))"
proof (intro conjI impI)
  assume "initial_wifi \<noteq> [] \<or> computers opt = []"
  then show "\<exists>r. hill_climbing opt initial_wifi max_iterations = Inr r"
    by (rule hill_climbing_total)
next
  assume "computers opt = []"
  then have "calculate_objective opt [] = Inr 0" by (simp add: calculate_objective_def)
  moreover have "get_neighbors opt [] = []" by (simp add: get_neighbors_def)
  ultimately show "hill_climbing opt [] max_iterations =
        Inr \<lparr>wifi_positions = Some [], score = 0, res_iterations = 0, res_improvements = 0\<rparr>"
    using no_neighbors_stay by blast
next
  assume a: "grid_size opt = 1 \<and> initial_wifi \<noteq> [] \<and> in_bounds 1 initial_wifi"
  then obtain s where s: "calculate_objective opt initial_wifi = Inr s"
    using calculate_objective_returns[of initial_wifi opt] by blast
  have "get_neighbors opt initial_wifi = []"
    using a single_cell_no_neighbors[of opt initial_wifi] by simp
  from no_neighbors_stay[OF this s] s
  show "\<exists>s. calculate_objective opt initial_wifi = Inr s \<and>
           hill_climbing opt initial_wifi max_iterations =
             Inr \<lparr>wifi_positions = Some initial_wifi, score = s,
                  res_iterations = 0, res_improvements = 0\<rparr>" by blast
qed

theorem hill_climbing_returns_witness:
  "hill_climbing \<lparr>grid_size = 1, num_computers = 1, num_wifi = 1, computers = [(0,0)]\<rparr> [(0,0)] 500 =
     Inr \<lparr>wifi_positions = Some [(0,0)], score = 0, res_iterations = 0, res_improvements = 0\<rparr> \<and>
   hill_climbing \<lparr>grid_size = 1, num_computers = 0, num_wifi = 0, computers = []\<rparr> [] 500 =
     Inr \<lparr>wifi_positions = Some [], score = 0, res_iterations = 0, res_improvements = 0\<rparr> \<and>
   in_bounds 1 [(0,0)]"
  using hill_climbing_returns[where initial_wifi = "[(0,0)]" and max_iterations = 500
      and opt = "\<lparr>grid_size = 1, num_computers = 1, num_wifi = 1, computers = [(0,0)]\<rparr>"]
    hill_climbing_returns[where initial_wifi = "[]" and max_iterations = 500
      and opt = "\<lparr>grid_size = 1, num_computers = 0, num_wifi = 0, computers = []\<rparr>"]
  by (simp add: in_bounds_def calculate_objective_def manhattan_distance_def)

text \<open>
  C6. In every result of \<open>hill_climbing\<close> the number of iterations equals the number of
  improvements; each pass of the loop that adopts a neighbor adds one to both counters, and
  the pass that ends the run changes neither (it returns the state as it is).
\<close>

theorem steps_equal_improvements:
  "(hill_climbing opt initial_wifi max_iterations = Inr r \<longrightarrow>
      res_iterations r = res_improvements r) \<and>
   (hc_body opt st = Inr (Some st') \<longrightarrow>
      iterations st' = iterations st + 1 \<and> improvements st' = improvements st + 1) \<and>
   (hc_body opt st0 = Inr None \<longrightarrow> hc_loop opt max_iterations st0 = Inr st0)"
proof (intro conjI; rule impI)
  assume "hill_climbing opt initial_wifi max_iterations = Inr r"
  then obtain s st where s: "calculate_objective opt initial_wifi = Inr s"
    and loop: "hc_loop opt max_iterations
       \<lparr>current_wifi = Some initial_wifi, current_score = s, iterations = 0, improvements = 0\<rparr> = Inr st"
    and r: "r = \<lparr>wifi_positions = current_wifi st, score = current_score st,
          res_iterations = iterations st, res_improvements = improvements st\<rparr>"
    by (rule hill_climbing_Inr)
  have "iterations st = improvements st"
    by (rule hc_loop_invariant[OF loop, where P = "\<lambda>s. iterations s = improvements s"])
       (auto dest: hc_body_counters)
  with r show "res_iterations r = res_improvements r" by simp
next
  assume "hc_body opt st = Inr (Some st')"
  then show "iterations st' = iterations st + 1 \<and> improvements st' = improvements st + 1"
    using hc_body_counters by blast
next
  assume "hc_body opt st0 = Inr None"
  then show "hc_loop opt max_iterations st0 = Inr st0"
    using hc_loop_stop by blast
qed

theorem steps_equal_improvements_witness:
  "hill_climbing scenario [(2,2)] 500 =
     Inr \<lparr>wifi_positions = Some [(0,2)], score = -2, res_iterations = 2, res_improvements = 2\<rparr> \<and>
   hc_body scenario (scenario_state (2,2) (-6) 0) = Inr (Some (scenario_state (1,2) (-4) 1)) \<and>
   hc_body scenario (scenario_state (0,2) (-2) 2) = Inr None \<and>
   hc_loop scenario 500 (scenario_state (0,2) (-2) 2) = Inr (scenario_state (0,2) (-2) 2) \<and>
   res_iterations \<lparr>wifi_positions = Some [(0,2)], score = -2, res_iterations = 2, res_improvements = 2\<rparr>
     = res_improvements \<lparr>wifi_positions = Some [(0,2)], score = -2, res_iterations = 2, res_improvements = 2\<rparr>"
  using steps_equal_improvements[where opt = scenario and initial_wifi = "[(2,2)]"
      and max_iterations = 500
      and r = "\<lparr>wifi_positions = Some [(0,2)], score = -2, res_iterations = 2, res_improvements = 2\<rparr>"
      and st = "scenario_state (2,2) (-6) 0" and st' = "scenario_state (1,2) (-4) 1"
      and ?st0.0 = "scenario_state (0,2) (-2) 2"]
    scen_run_500 scen_step1[of scenario] scen_step3[of scenario]
  by simp



text \<open>
  C10. From a non-empty starting placement \<open>hill_climbing\<close> returns a result whose score is
  the objective function applied to the placement of the same result.
\<close>

theorem score_is_objective:
  assumes "initial_wifi \<noteq> []"
  shows "\<exists>r wifi. hill_climbing opt initial_wifi max_iterations = Inr r \<and>
           wifi_positions r = Some wifi \<and> calculate_objective opt wifi = Inr (score r)"
proof -
  from hill_climbing_total[of initial_wifi opt max_iterations] assms obtain r
    where run: "hill_climbing opt initial_wifi max_iterations = Inr r" by blast
  then obtain s st where s: "calculate_objective opt initial_wifi = Inr s"
    and loop: "hc_loop opt max_iterations
       \<lparr>current_wifi = Some initial_wifi, current_score = s, iterations = 0, improvements = 0\<rparr> = Inr st"
    and r: "r = \<lparr>wifi_positions = current_wifi st, score = current_score st,
          res_iterations = iterations st, res_improvements = improvements st\<rparr>"
    by (rule hill_climbing_Inr)
  have "consistent opt st"
    by (rule hc_loop_invariant[OF loop, where P = "consistent opt"])
       (use s in \<open>auto simp: consistent_def intro: hc_body_consistent[unfolded consistent_def]\<close>)
  with r run show ?thesis by (auto simp: consistent_def)
qed

theorem score_is_objective_witness:
  "[(2::int,2::int)] \<noteq> [] \<and>
   hill_climbing scenario [(2,2)] 500 =
     Inr \<lparr>wifi_positions = Some [(0,2)], score = -2, res_iterations = 2, res_improvements = 2\<rparr> \<and>
   calculate_objective scenario [(0,2)] = Inr (-2)"
  using score_is_objective[where initial_wifi = "[(2,2)]" and opt = scenario and max_iterations = 500] scen_run_500
  by (simp add: calculate_objective_def manhattan_distance_def)

text \<open>
  C4. In a run of \<open>hill_climbing\<close> that returns, the states of the loop from the start to
  the returned one form a chain in which each state is what the loop body adopts from the
  one before; the score of every state is the objective of its placement; the scores along
  the chain increase strictly, an adopted neighbor having a score strictly above the
  current one; the chain has one state more than the result counts iterations.
\<close>

theorem scores_strictly_increase:
  assumes "hill_climbing opt initial_wifi max_iterations = Inr r"
  shows "\<exists>s0 tr. calculate_objective opt initial_wifi = Inr s0 \<and>
     tr = hc_trace opt max_iterations
            \<lparr>current_wifi = Some initial_wifi, current_score = s0,
             iterations = 0, improvements = 0\<rparr> \<and>
     hd tr = \<lparr>current_wifi = Some initial_wifi, current_score = s0,
              iterations = 0, improvements = 0\<rparr> \<and>
     (\<forall>k. Suc k < length tr \<longrightarrow>
        hc_body opt (tr ! k) = Inr (Some (tr ! Suc k)) \<and>
        current_score (tr ! k) < current_score (tr ! Suc k)) \<and>
     sorted_wrt (<) (map current_score tr) \<and>
     (\<forall>st \<in> set tr. consistent opt st) \<and>
     current_wifi (last tr) = wifi_positions r \<and> current_score (last tr) = score r \<and>
     int (length tr) = res_iterations r + 1"
proof -
  from assms obtain s st where s: "calculate_objective opt initial_wifi = Inr s"
    and loop: "hc_loop opt max_iterations
       \<lparr>current_wifi = Some initial_wifi, current_score = s, iterations = 0, improvements = 0\<rparr> = Inr st"
    and r: "r = \<lparr>wifi_positions = current_wifi st, score = current_score st,
          res_iterations = iterations st, res_improvements = improvements st\<rparr>"
    by (rule hill_climbing_Inr)
  let ?st0 = "\<lparr>current_wifi = Some initial_wifi, current_score = s, iterations = 0, improvements = 0\<rparr>"
  let ?tr = "hc_trace opt max_iterations ?st0"
  have hd: "hd ?tr = ?st0" using hc_trace_hd[of opt max_iterations ?st0] by auto
  have chain: "\<forall>k. Suc k < length ?tr \<longrightarrow>
        hc_body opt (?tr ! k) = Inr (Some (?tr ! Suc k)) \<and>
        current_score (?tr ! k) < current_score (?tr ! Suc k)"
    using hc_trace_chain[of _ opt max_iterations ?st0] hc_body_counters by blast
  have sorted: "sorted_wrt (<) (map current_score ?tr)" by (rule hc_trace_sorted)
  have "consistent opt ?st0" using s by (simp add: consistent_def)
  then have cons: "\<forall>st \<in> set ?tr. consistent opt st"
    using hc_trace_consistent by blast
  have last: "last ?tr = st" "int (length ?tr) = iterations st + 1"
    using hc_trace_last[OF loop] by simp_all
  have res: "current_wifi (last ?tr) = wifi_positions r" "current_score (last ?tr) = score r"
    "int (length ?tr) = res_iterations r + 1"
    using last r by simp_all
  from s hd chain sorted cons res show ?thesis by blast
qed

theorem scores_strictly_increase_witness:
  "hill_climbing scenario [(2,2)] 500 =
     Inr \<lparr>wifi_positions = Some [(0,2)], score = -2, res_iterations = 2, res_improvements = 2\<rparr> \<and>
   calculate_objective scenario [(2,2)] = Inr (-6) \<and>
   map current_score (hc_trace scenario 500 (scenario_state (2,2) (-6) 0)) = [-6, -4, -2]"
  using scores_strictly_increase[where opt = scenario and initial_wifi = "[(2,2)]"
      and max_iterations = 500
      and r = "\<lparr>wifi_positions = Some [(0,2)], score = -2, res_iterations = 2, res_improvements = 2\<rparr>"]
    scen_run_500 scen_init[of scenario] scen_trace[of scenario 500]
  by simp

text \<open>
  C5. The neighbor adopted by a pass of the loop stands at a position \<open>i\<close> of the list of
  \<open>get_neighbors\<close> such that no neighbor of the list has a greater score and every neighbor
  before position \<open>i\<close> has a strictly smaller one: among the neighbors of maximal score it
  is the first. The list enumerates the access points by index and, for each, the
  directions \<open>(-1,0)\<close>, \<open>(1,0)\<close>, \<open>(0,-1)\<close>, \<open>(0,1)\<close> in this order. The pass depends on
  the optimizer only through the grid size and the clients.
\<close>

theorem first_maximal_neighbor_adopted:
  assumes "hc_body opt st = Inr (Some st')" and "current_wifi st = Some wifi"
  shows "(\<exists>i < length (get_neighbors opt wifi).
     current_wifi st' = Some (get_neighbors opt wifi ! i) \<and>
     calculate_objective opt (get_neighbors opt wifi ! i) = Inr (current_score st') \<and>
     (\<forall>j < length (get_neighbors opt wifi). \<exists>s.
        calculate_objective opt (get_neighbors opt wifi ! j) = Inr s \<and> s \<le> current_score st') \<and>
     (\<forall>j < i. \<exists>s.
        calculate_objective opt (get_neighbors opt wifi ! j) = Inr s \<and> s < current_score st')) \<and>
   get_neighbors opt wifi =
     concat (map (\<lambda>(i, d). move (grid_size opt) wifi i d)
                 (List.product [0 ..< length wifi] [(-1, 0), (1, 0), (0, -1), (0, 1)])) \<and>
   (\<forall>opt'. grid_size opt' = grid_size opt \<and> computers opt' = computers opt \<longrightarrow>
      hc_body opt' st = hc_body opt st)"
proof (intro conjI)
  show "\<exists>i < length (get_neighbors opt wifi).
     current_wifi st' = Some (get_neighbors opt wifi ! i) \<and>
     calculate_objective opt (get_neighbors opt wifi ! i) = Inr (current_score st') \<and>
     (\<forall>j < length (get_neighbors opt wifi). \<exists>s.
        calculate_objective opt (get_neighbors opt wifi ! j) = Inr s \<and> s \<le> current_score st') \<and>
     (\<forall>j < i. \<exists>s.
        calculate_objective opt (get_neighbors opt wifi ! j) = Inr s \<and> s < current_score st')"
    by (rule hc_body_adopts[OF assms])
  show "get_neighbors opt wifi =
     concat (map (\<lambda>(i, d). move (grid_size opt) wifi i d)
                 (List.product [0 ..< length wifi] [(-1, 0), (1, 0), (0, -1), (0, 1)]))"
    using get_neighbors_product[of opt wifi] by (simp only: directions_def)
  show "\<forall>opt'. grid_size opt' = grid_size opt \<and> computers opt' = computers opt \<longrightarrow>
      hc_body opt' st = hc_body opt st"
    using hc_body_independent by blast
qed

theorem first_maximal_neighbor_adopted_witness:
  "hc_body tie \<lparr>current_wifi = Some [(0,0)], current_score = -2, iterations = 0, improvements = 0\<rparr>
     = Inr (Some \<lparr>current_wifi = Some [(1,0)], current_score = -1, iterations = 1, improvements = 1\<rparr>) \<and>
   get_neighbors tie [(0,0)] = [[(1,0)], [(0,1)]] \<and>
   calculate_objective tie [(1,0)] = Inr (-1) \<and> calculate_objective tie [(0,1)] = Inr (-1)"
  using first_maximal_neighbor_adopted[where opt = tie and wifi = "[(0,0)]"
      and st = "\<lparr>current_wifi = Some [(0,0)], current_score = -2, iterations = 0, improvements = 0\<rparr>"
      and st' = "\<lparr>current_wifi = Some [(1,0)], current_score = -1, iterations = 1, improvements = 1\<rparr>"]
    tie_step tie_neighbors tie_scores
  by simp

text \<open>
  C7. A placement returned by \<open>generate_random_wifi\<close> lies on the grid and has no repeated
  position; so does every neighbor that \<open>get_neighbors\<close> returns for a placement on the grid.
\<close>

theorem placements_in_bounds_distinct:
  "(generate_random_wifi opt rng = Inr (wifi, rng') \<longrightarrow>
      in_bounds (grid_size opt) wifi \<and> distinct wifi) \<and>
   (in_bounds (grid_size opt) wifi0 \<and> n \<in> set (get_neighbors opt wifi0) \<longrightarrow>
      in_bounds (grid_size opt) n \<and> distinct n)"
proof (rule conjI; rule impI)
  assume "generate_random_wifi opt rng = Inr (wifi, rng')"
  then show "in_bounds (grid_size opt) wifi \<and> distinct wifi"
    unfolding generate_random_wifi_def by (rule generate_random_positions_ok)
next
  assume "in_bounds (grid_size opt) wifi0 \<and> n \<in> set (get_neighbors opt wifi0)"
  then show "in_bounds (grid_size opt) n \<and> distinct n"
    using neighbor_in_bounds[of opt wifi0 n] get_neighbors_distinct[of n opt wifi0] by blast
qed

theorem placements_in_bounds_distinct_witness:
  "map_sum id fst (generate_random_wifi pair_instance id) = Inr [(0,1),(2,0)] \<and>
   in_bounds 3 [(0,1),(2,0)] \<and> distinct [(0::int,1::int),(2,0)] \<and>
   [(0,1),(1,0)] \<in> set (get_neighbors pair_instance [(0,1),(2,0)]) \<and>
   in_bounds 3 [(0,1),(1,0)] \<and> distinct [(0::int,1::int),(1,0)]"
proof -
  obtain rng' where g: "generate_random_wifi pair_instance id = Inr ([(0,1),(2,0)], rng')"
    using pair_generated by (cases "generate_random_wifi pair_instance id") auto
  show ?thesis
    using placements_in_bounds_distinct[where opt = pair_instance and rng = id
        and wifi = "[(0,1),(2,0)]" and rng' = rng' and ?wifi0.0 = "[(0,1),(2,0)]"
        and n = "[(0,1),(1,0)]"]
      g pair_generated pair_neighbor pair_bounds
    by simp
qed

text \<open>
  C8. For \<open>num_restarts \<ge> 1\<close>: a result is returned whenever the grid and the number of
  access points are positive (and, with \<open>verbose\<close>, there is a client). In a returned result
  there are \<open>num_restarts\<close> recorded runs, each a run of \<open>hill_climbing\<close> from a generated
  placement; the best score is the maximum of their scores, so no run exceeds it; the
  best restart number is, counted from 1, the position of the first run that reaches the
  maximum, and the best placement is that run's. In one pass of the loop the best so far
  is replaced exactly when the new score is strictly greater, and kept otherwise.
\<close>

theorem best_of_restarts:
  assumes "1 \<le> num_restarts"
  shows "(1 \<le> grid_size opt \<and> 1 \<le> num_wifi opt \<and> (verbose \<longrightarrow> computers opt \<noteq> []) \<longrightarrow>
      (\<exists>res g. hill_climbing_with_random_restart opt num_restarts max_iterations verbose rng
                 = Inr (res, g))) \<and>
    (hill_climbing_with_random_restart opt num_restarts max_iterations verbose rng = Inr (res, rng') \<longrightarrow>
      length (res_all_results res) = nat num_restarts \<and>
      (\<forall>r \<in> set (res_all_results res). \<exists>g g' w.
          generate_random_wifi opt g = Inr (w, g') \<and> hill_climbing opt w max_iterations = Inr r) \<and>
      res_best_score res = Score (Max (set (map score (res_all_results res)))) \<and>
      (\<forall>r \<in> set (res_all_results res). \<not> exceeds (score r) (res_best_score res)) \<and>
      (\<exists>i < length (res_all_results res).
          res_best_restart_num res = int i + 1 \<and>
          score (res_all_results res ! i) = Max (set (map score (res_all_results res))) \<and>
          best_wifi_positions res = wifi_positions (res_all_results res ! i) \<and>
          (\<forall>j < i. score (res_all_results res ! j) < score (res_all_results res ! i)))) \<and>
    (restart_body opt max_iterations st restart = Inr st' \<longrightarrow>
      (\<exists>r. all_results st' = all_results st @ [r] \<and>
        (if exceeds (score r) (best_score st)
         then best_score st' = Score (score r) \<and> best_solution st' = wifi_positions r \<and>
              best_restart_num st' = restart + 1
         else best_score st' = best_score st \<and> best_solution st' = best_solution st \<and>
              best_restart_num st' = best_restart_num st)))"
proof (intro conjI impI)
  assume "1 \<le> grid_size opt \<and> 1 \<le> num_wifi opt \<and> (verbose \<longrightarrow> computers opt \<noteq> [])"
  then show "\<exists>res g. hill_climbing_with_random_restart opt num_restarts max_iterations verbose rng
                 = Inr (res, g)"
    using restart_returns[of opt num_restarts verbose max_iterations rng] assms by blast
next
  assume "restart_body opt max_iterations st restart = Inr st'"
  from restart_body_Inr[OF this]
  show "\<exists>r. all_results st' = all_results st @ [r] \<and>
        (if exceeds (score r) (best_score st)
         then best_score st' = Score (score r) \<and> best_solution st' = wifi_positions r \<and>
              best_restart_num st' = restart + 1
         else best_score st' = best_score st \<and> best_solution st' = best_solution st \<and>
              best_restart_num st' = best_restart_num st)"
    by blast
next
  assume run: "hill_climbing_with_random_restart opt num_restarts max_iterations verbose rng
                 = Inr (res, rng')"
  then obtain st worst where
    loop: "restart_loop opt max_iterations (start rng) (map int [0 ..< nat num_restarts]) = Inr st"
    and res: "res = \<lparr>best_wifi_positions = best_solution st, res_best_score = best_score st,
            res_best_restart_num = best_restart_num st, total_restarts = num_restarts,
            res_all_results = all_results st,
            stats = \<lparr>stat_best_score = best_score st, worst_score = worst,
                     unique_solutions = card (set (map score (all_results st))),
                     stat_total_improvements = total_improvements st\<rparr>\<rparr>"
    by (rule restart_Inr)
  let ?rs = "all_results st"
  from restart_end[OF loop assms] obtain i where len: "length ?rs = nat num_restarts"
    and gen: "generated_runs opt max_iterations ?rs"
    and i: "i < length ?rs" "best_score st = Score (score (?rs ! i))"
       "best_restart_num st = int i + 1" "best_solution st = wifi_positions (?rs ! i)"
       "\<forall>j < length ?rs. score (?rs ! j) \<le> score (?rs ! i)"
       "\<forall>j < i. score (?rs ! j) < score (?rs ! i)"
    by blast
  have mx: "score (?rs ! i) = Max (set (map score ?rs))"
    using tracks_best_Max[OF i(1) i(5)] .
  show "length (res_all_results res) = nat num_restarts" using res len by simp
  show "\<forall>r \<in> set (res_all_results res). \<exists>g g' w.
          generate_random_wifi opt g = Inr (w, g') \<and> hill_climbing opt w max_iterations = Inr r"
    using gen res by (simp add: generated_runs_def)
  show "res_best_score res = Score (Max (set (map score (res_all_results res))))"
    using res i(2) mx by simp
  show "\<forall>r \<in> set (res_all_results res). \<not> exceeds (score r) (res_best_score res)"
  proof
    fix r assume "r \<in> set (res_all_results res)"
    then obtain j where "j < length ?rs" "r = ?rs ! j"
      using res by (auto simp: in_set_conv_nth)
    then have "score r \<le> score (?rs ! i)" using i(5) by simp
    then show "\<not> exceeds (score r) (res_best_score res)" using res i(2) by simp
  qed
  show "\<exists>i < length (res_all_results res).
          res_best_restart_num res = int i + 1 \<and>
          score (res_all_results res ! i) = Max (set (map score (res_all_results res))) \<and>
          best_wifi_positions res = wifi_positions (res_all_results res ! i) \<and>
          (\<forall>j < i. score (res_all_results res ! j) < score (res_all_results res ! i))"
    using res i mx by (intro exI[of _ i]) simp
qed

theorem best_of_restarts_witness:
  "(1::int) \<le> 6 \<and>
   map_sum id fst (hill_climbing_with_random_restart scenario 6 0 True (\<lambda>k. k + 2)) = Inr six_starts \<and>
   res_best_score six_starts = Score (Max (set (map score (res_all_results six_starts)))) \<and>
   res_best_restart_num six_starts = 3 \<and>
   map score (res_all_results six_starts) = [- 6, - 4, - 2, - 6, - 4, - 2]"
proof -
  obtain g where run:
    "hill_climbing_with_random_restart scenario 6 0 True (\<lambda>k. k + 2) = Inr (six_starts, g)"
    using six_starts_run
    by (cases "hill_climbing_with_random_restart scenario 6 0 True (\<lambda>k. k + 2)") auto
  have "res_best_score six_starts = Score (Max (set (map score (res_all_results six_starts))))"
    using best_of_restarts[where num_restarts = 6 and opt = scenario and verbose = True
        and max_iterations = 0 and rng = "\<lambda>k. k + 2" and res = six_starts and rng' = g] run
    by simp
  then show ?thesis using six_starts_run by simp
qed

text \<open>
  C3. An invalid configuration does not always end in an error, as nothing validates it:
  a grid size of 0 with negative counts constructs an optimizer, and one restart on it
  returns statistics.
\<close>

theorem unvalidated_configuration_runs:
  "init 0 (- 1) (- 1) id = Inr (lax, id) \<and>
   map_sum id fst (hill_climbing_with_random_restart lax 1 500 False id) =
     Inr \<lparr>best_wifi_positions = Some [], res_best_score = Score 0,
          res_best_restart_num = 1, total_restarts = 1,
          res_all_results =
            [\<lparr>wifi_positions = Some [], score = 0, res_iterations = 0, res_improvements = 0\<rparr>],
          stats = \<lparr>stat_best_score = Score 0, worst_score = 0, unique_solutions = 1,
                    stat_total_improvements = 0\<rparr>\<rparr>"
  using unchecked_init unchecked_run by blast

text \<open>
  C3, as amended. With \<open>num_restarts < 1\<close> no restart runs and the minimum over the empty
  list of scores raises \<open>ValueError\<close>, so no statistics are returned. A grid size of at most
  0 raises \<open>ValueError\<close> where a position is drawn: in the constructor when a client is
  requested, in the first restart when an access point is. A number of clients of at most 0
  is accepted by the constructor and gives no client.
\<close>

theorem invalid_configuration:
  "(num_restarts < 1 \<longrightarrow>
      hill_climbing_with_random_restart opt num_restarts max_iterations verbose rng
        = Inl ValueError) \<and>
   (grid_size opt \<le> 0 \<and> 1 \<le> num_wifi opt \<and> 1 \<le> num_restarts \<longrightarrow>
      hill_climbing_with_random_restart opt num_restarts max_iterations verbose rng
        = Inl ValueError) \<and>
   (gs \<le> 0 \<and> 1 \<le> nc \<longrightarrow> init gs nc nw rng = Inl ValueError) \<and>
   (nc \<le> 0 \<longrightarrow>
      init gs nc nw rng =
        Inr (\<lparr>grid_size = gs, num_computers = nc, num_wifi = nw, computers = []\<rparr>, rng))"
proof (intro conjI impI)
  assume "num_restarts < 1"
  then show "hill_climbing_with_random_restart opt num_restarts max_iterations verbose rng
        = Inl ValueError" by (rule restart_none)
next
  assume "grid_size opt \<le> 0 \<and> 1 \<le> num_wifi opt \<and> 1 \<le> num_restarts"
  then show "hill_climbing_with_random_restart opt num_restarts max_iterations verbose rng
        = Inl ValueError" using restart_no_grid by blast
next
  assume "gs \<le> 0 \<and> 1 \<le> nc"
  then show "init gs nc nw rng = Inl ValueError"
    by (simp add: init_def generate_random_computers_def generate_random_positions_raises)
next
  assume "nc \<le> 0"
  then show "init gs nc nw rng =
        Inr (\<lparr>grid_size = gs, num_computers = nc, num_wifi = nw, computers = []\<rparr>, rng)"
    by (simp add: init_def generate_random_computers_def generate_random_positions_none)
qed

theorem invalid_configuration_witness:
  "hill_climbing_with_random_restart scenario 0 500 True id = Inl ValueError \<and>
   hill_climbing_with_random_restart
     \<lparr>grid_size = 0, num_computers = 0, num_wifi = 1, computers = []\<rparr> 1 500 True id
       = Inl ValueError \<and>
   init 0 1 1 id = Inl ValueError \<and>
   init 3 (- 1) 1 id =
     Inr (\<lparr>grid_size = 3, num_computers = - 1, num_wifi = 1, computers = []\<rparr>, id)"
  using invalid_configuration[where num_restarts = 0 and opt = scenario and max_iterations = 500
      and verbose = True and rng = id and gs = 0 and nc = 1 and nw = 1]
    invalid_configuration[where num_restarts = 1 and max_iterations = 500
      and opt = "\<lparr>grid_size = 0, num_computers = 0, num_wifi = 1, computers = []\<rparr>"
      and verbose = True and rng = id and gs = 3 and nc = "- 1" and nw = 1]
  by simp

end
